theory Spec2Isabelle
  imports Main "HOL-Library.Sublist"
begin

section \<open>pipejob: the step/job interpreter, its rule evaluator and its log buffer\<close>

text \<open>
  A shallow embedding of \<^verbatim>\<open>main.go\<close>, \<^verbatim>\<open>exec.go\<close>, \<^verbatim>\<open>types.go\<close> and
  \<^verbatim>\<open>helpers.go\<close>. Go strings are byte strings (\<open>string\<close>), Go's \<^verbatim>\<open>int\<close> is
  \<open>int\<close> (every integer of the program is an index, a length or an exit code, far
  from 64-bit overflow), a slice is the list of its elements. The working job list is
  the one slice that the program writes while a pointer and a second slice look into
  its backing array: for it the state of a run also holds the capacity and what the
  pointer and the second slice show.
\<close>

subsection \<open>The bounded log buffer (\<^verbatim>\<open>appendToBuf\<close>, main.go)\<close>

definition logCap :: nat where
  "logCap = 307200"

text \<open>
  \<^verbatim>\<open>
  appendToBuf := func(b []byte) {
      if len(b) == 0 { return }
      logBuf = append(logBuf, b...)
      if len(logBuf) > logCap { logBuf = logBuf[len(logBuf)-logCap:] }
  }
  \<close>
  The closure updates the captured \<^verbatim>\<open>logBuf\<close>; the model takes the buffer and
  returns the new one.
\<close>

definition appendToBuf :: "'a list \<Rightarrow> 'a list \<Rightarrow> 'a list" where
  "appendToBuf logBuf b =
     (if length b = 0 then logBuf
      else let logBuf' = logBuf @ b
           in if length logBuf' > logCap
              then drop (length logBuf' - logCap) logBuf'
              else logBuf')"

text \<open>\<^verbatim>\<open>writeLog(s)\<close> appends the line \<^verbatim>\<open>s + "\n"\<close> (the copy to the log file is not modelled).\<close>

definition writeLog :: "string \<Rightarrow> string \<Rightarrow> string" where
  "writeLog logBuf s = appendToBuf logBuf (s @ [CHR 0x0A])"

text \<open>The trailing \<open>n\<close> elements of a list (all of it when it is shorter).\<close>

definition trailing :: "nat \<Rightarrow> 'a list \<Rightarrow> 'a list" where
  "trailing n xs = drop (length xs - n) xs"

subsection \<open>Go's \<^verbatim>\<open>strings\<close> and \<^verbatim>\<open>strconv\<close> functions the program calls\<close>

text \<open>\<^verbatim>\<open>strings.Contains(s, substr)\<close>: \<open>substr\<close> occurs in \<open>s\<close> as a contiguous run of bytes.\<close>

definition strings_Contains :: "string \<Rightarrow> string \<Rightarrow> bool" where
  "strings_Contains s substr = sublist substr s"

text \<open>
  \<^verbatim>\<open>strings.TrimSpace\<close> removes the leading and the trailing white space "as defined
  by Unicode". On a byte string these are the UTF-8 encodings of the runes of
  \<^verbatim>\<open>unicode.IsSpace\<close>: U+0009..U+000D, U+0020, U+0085, U+00A0, U+1680,
  U+2000..U+200A, U+2028, U+2029, U+202F, U+205F and U+3000.
\<close>

definition space_runes :: "string list" where
  "space_runes =
     [[CHR 0x09], [CHR 0x0A], [CHR 0x0B], [CHR 0x0C], [CHR 0x0D], [CHR 0x20],
      [CHR 0xC2, CHR 0x85], [CHR 0xC2, CHR 0xA0], [CHR 0xE1, CHR 0x9A, CHR 0x80],
      [CHR 0xE2, CHR 0x80, CHR 0x80], [CHR 0xE2, CHR 0x80, CHR 0x81],
      [CHR 0xE2, CHR 0x80, CHR 0x82], [CHR 0xE2, CHR 0x80, CHR 0x83],
      [CHR 0xE2, CHR 0x80, CHR 0x84], [CHR 0xE2, CHR 0x80, CHR 0x85],
      [CHR 0xE2, CHR 0x80, CHR 0x86], [CHR 0xE2, CHR 0x80, CHR 0x87],
      [CHR 0xE2, CHR 0x80, CHR 0x88], [CHR 0xE2, CHR 0x80, CHR 0x89],
      [CHR 0xE2, CHR 0x80, CHR 0x8A], [CHR 0xE2, CHR 0x80, CHR 0xA8],
      [CHR 0xE2, CHR 0x80, CHR 0xA9], [CHR 0xE2, CHR 0x80, CHR 0xAF],
      [CHR 0xE2, CHR 0x81, CHR 0x9F], [CHR 0xE3, CHR 0x80, CHR 0x80]]"

text \<open>The width in bytes of the white-space rune a string starts (ends) with; 0 when there is none.\<close>

definition leading_space :: "string \<Rightarrow> nat" where
  "leading_space s = (case find (\<lambda>r. prefix r s) space_runes of None \<Rightarrow> 0 | Some r \<Rightarrow> length r)"

definition trailing_space :: "string \<Rightarrow> nat" where
  "trailing_space s = (case find (\<lambda>r. suffix r s) space_runes of None \<Rightarrow> 0 | Some r \<Rightarrow> length r)"

function TrimLeft :: "string \<Rightarrow> string" where
  "TrimLeft s = (if leading_space s = 0 \<or> s = [] then s else TrimLeft (drop (leading_space s) s))"
  by pat_completeness auto
termination
  by (relation "measure length") auto

function TrimRight :: "string \<Rightarrow> string" where
  "TrimRight s =
     (if trailing_space s = 0 \<or> s = [] then s else TrimRight (take (length s - trailing_space s) s))"
  by pat_completeness auto
termination
  by (relation "measure length") auto

text \<open>
  The equations of these functions call themselves under an \<open>if\<close>; they are unfolded
  one step at a time, not by the simplifier on its own.
\<close>

declare TrimLeft.simps [simp del]
declare TrimRight.simps [simp del]

definition strings_TrimSpace :: "string \<Rightarrow> string" where
  "strings_TrimSpace s = TrimRight (TrimLeft s)"

text \<open>
  \<^verbatim>\<open>strings.ReplaceAll(s, old, new)\<close> replaces the non-overlapping occurrences of
  \<open>old\<close>, scanning from the left. The program calls it with \<open>old\<close> a placeholder
  \<^verbatim>\<open>"{{" + k + "}}"\<close>, never the empty string; for an empty \<open>old\<close> (where Go splices
  \<open>new\<close> between the runes) the model leaves \<open>s\<close> as it is.
\<close>

function ReplaceAll :: "string \<Rightarrow> string \<Rightarrow> string \<Rightarrow> string" where
  "ReplaceAll s old new =
     (if old = [] \<or> s = [] then s
      else if prefix old s then new @ ReplaceAll (drop (length old) s) old new
      else hd s # ReplaceAll (tl s) old new)"
  by pat_completeness auto
termination
  by (relation "measure (\<lambda>(s, old, new). length s)") auto

declare ReplaceAll.simps [simp del]

text \<open>
  \<^verbatim>\<open>strings.ToLower\<close>, on the ASCII letters. The program only compares the result with
  \<^verbatim>\<open>"command"\<close>, and no rune outside ASCII has a lower case among the letters of that word.
\<close>

definition ToLower :: "string \<Rightarrow> string" where
  "ToLower s =
     map (\<lambda>c. let n = (of_char c :: nat) in if 65 \<le> n \<and> n \<le> 90 then char_of (n + 32) else c) s"

text \<open>\<^verbatim>\<open>strconv.FormatInt(i, 10)\<close>: the decimal digits of \<open>i\<close>, after a minus sign when \<open>i < 0\<close>.\<close>

function decimal :: "int \<Rightarrow> string" where
  "decimal n =
     (if n < 10 then [''0123456789'' ! nat n]
      else decimal (n div 10) @ [''0123456789'' ! nat (n mod 10)])"
  by pat_completeness auto
termination
  by (relation "measure nat") auto

declare decimal.simps [simp del]

definition FormatInt :: "int \<Rightarrow> string" where
  "FormatInt i = (if i < 0 then CHR ''-'' # decimal (- i) else decimal i)"

subsection \<open>Variable interpolation (\<^verbatim>\<open>interpolate\<close>, helpers.go)\<close>

text \<open>
  \<^verbatim>\<open>
  func interpolate(tmpl string, vars map[string]string) string {
      if tmpl == "" { return tmpl }
      res := tmpl
      for k, v := range vars {
          res = strings.ReplaceAll(res, "{{"+k+"}}", v)
          res = strings.ReplaceAll(res, "{{ "+k+" }}", v)
          res = strings.ReplaceAll(res, "{{."+k+"}}", v)
          res = strings.ReplaceAll(res, "{{ ."+k+" }}", v)
      }
      return res
  }
  \<close>
  The variable environment is an association list with one entry per key; the
  \<^verbatim>\<open>range\<close> loop, whose order Go leaves open, visits the entries in the order of the
  list. \<^verbatim>\<open>vars[k] = v\<close> is \<open>set_var\<close>.
\<close>

type_synonym vars = "(string \<times> string) list"

fun set_var :: "string \<Rightarrow> string \<Rightarrow> vars \<Rightarrow> vars" where
  "set_var k v [] = [(k, v)]"
| "set_var k v ((k', v') # kvs) = (if k' = k then (k, v) # kvs else (k', v') # set_var k v kvs)"

definition interpolate :: "string \<Rightarrow> vars \<Rightarrow> string" where
  "interpolate tmpl vars =
     (if tmpl = [] then tmpl
      else foldl (\<lambda>res (k, v).
             ReplaceAll (ReplaceAll (ReplaceAll (ReplaceAll res
               (''{{'' @ k @ ''}}'') v)
               (''{{ '' @ k @ '' }}'') v)
               (''{{.'' @ k @ ''}}'') v)
               (''{{ .'' @ k @ '' }}'') v) tmpl vars)"

subsection \<open>The data model (types.go)\<close>

text \<open>
  \<^verbatim>\<open>Step.Conditions\<close> and \<^verbatim>\<open>Step.When\<close> are slices of anonymous structs; the records
  \<open>Condition\<close> and \<open>WhenRule\<close> name them. Fields that several structs share carry the
  struct as a prefix. \<^verbatim>\<open>ExitCode *int\<close> is an \<open>int option\<close>, \<open>None\<close> for \<^verbatim>\<open>nil\<close>.
\<close>

record Condition =
  Pattern :: string
  cond_Action :: string
  cond_Step :: string
  cond_Job :: string

record WhenRule =
  Contains :: string
  Equals :: string
  Regex :: string
  ExitCode :: "int option"
  when_Action :: string
  when_Step :: string
  when_Job :: string

record Step =
  step_Name :: string
  Type :: string
  Command :: string
  Commands :: "string list"
  SaveOutput :: string
  Silent :: bool
  Conditions :: "Condition list"
  When :: "WhenRule list"
  ElseAction :: string
  ElseStep :: string
  ElseJob :: string
  Timeout :: string
  IdleTimeout :: string
  OnTimeout :: string
  OnTimeoutStep :: string
  OnTimeoutJob :: string

record Job =
  job_Name :: string
  Steps :: "Step list"

subsection \<open>Job lookup and the resume job (\<^verbatim>\<open>resolveJobIndexExec\<close>, exec.go; \<^verbatim>\<open>insertResumeJob\<close>, main.go)\<close>

text \<open>The index of the first job of a list with a given name.\<close>

fun job_index :: "Job list \<Rightarrow> string \<Rightarrow> nat option" where
  "job_index [] target = None"
| "job_index (j # js) target =
     (if job_Name j = target then Some 0
      else case job_index js target of None \<Rightarrow> None | Some i \<Rightarrow> Some (Suc i))"

text \<open>
  \<^verbatim>\<open>pos := after + 1; if pos < 0 { pos = 0 }; if pos > len(*execJobs) { pos = len(*execJobs) }\<close>,
  then \<^verbatim>\<open>*execJobs = append((*execJobs)[:pos], append([]Job{j}, (*execJobs)[pos:]...)...)\<close>.
  The inner \<^verbatim>\<open>append\<close> copies the tail before the outer one writes, so the new slice
  holds the old elements around \<open>j\<close> whether or not its backing array is reused.
\<close>

definition clamp_pos :: "int \<Rightarrow> 'a list \<Rightarrow> nat" where
  "clamp_pos after xs =
     (let pos = after + 1;
          pos = (if pos < 0 then 0 else pos);
          pos = (if pos > int (length xs) then int (length xs) else pos)
      in nat pos)"

definition insert_at :: "nat \<Rightarrow> 'a \<Rightarrow> 'a list \<Rightarrow> 'a list" where
  "insert_at pos j xs = take pos xs @ [j] @ drop pos xs"

text \<open>
  \<^verbatim>\<open>
  func resolveJobIndexExec(execJobs *[]Job, allJobs []Job, target string, insertAfter int) (int, bool) {
      for i := range *execJobs {
          if (*execJobs)[i].Name == target { return i, true }
      }
      for _, j := range allJobs {
          if j.Name == target {
              pos := insertAfter + 1 ... (clamped)
              *execJobs = append(...)
              return pos, true
          }
      }
      return -1, false
  }
  \<close>
  The model returns the updated \<^verbatim>\<open>*execJobs\<close> with the two results.
\<close>

definition resolveJobIndexExec :: "Job list \<Rightarrow> Job list \<Rightarrow> string \<Rightarrow> int \<Rightarrow> Job list \<times> int \<times> bool" where
  "resolveJobIndexExec execJobs allJobs target insertAfter =
     (case job_index execJobs target of
        Some i \<Rightarrow> (execJobs, int i, True)
      | None \<Rightarrow>
          (case find (\<lambda>j. job_Name j = target) allJobs of
             Some j \<Rightarrow>
               (let pos = clamp_pos insertAfter execJobs
                in (insert_at pos j execJobs, int pos, True))
           | None \<Rightarrow> (execJobs, - 1, False)))"

text \<open>
  \<^verbatim>\<open>
  func insertResumeJob(execJobs *[]Job, after int, job Job, resumeFrom int) {
      if resumeFrom+1 >= len(job.Steps) { return }
      rem := make([]Step, len(job.Steps[resumeFrom+1:]))
      copy(rem, job.Steps[resumeFrom+1:])
      newJob := Job{
          Name:  job.Name + "-resume-" + strconv.FormatInt(time.Now().UnixNano(), 10),
          Steps: rem,
      }
      pos := after + 1 ... (clamped)
      *execJobs = append(...)
  }
  \<close>
  \<open>now\<close> is the reading of the clock, \<^verbatim>\<open>time.Now().UnixNano()\<close>. The interpreter calls
  the function with \<open>resumeFrom\<close> the step cursor, which is never below \<open>-1\<close>, so the
  slice expression \<^verbatim>\<open>job.Steps[resumeFrom+1:]\<close> is in range.
\<close>

definition insertResumeJob :: "Job list \<Rightarrow> int \<Rightarrow> Job \<Rightarrow> int \<Rightarrow> int \<Rightarrow> Job list" where
  "insertResumeJob execJobs after job resumeFrom now =
     (if resumeFrom + 1 \<ge> int (length (Steps job)) then execJobs
      else let rem = drop (nat (resumeFrom + 1)) (Steps job);
               newJob = \<lparr>job_Name = job_Name job @ ''-resume-'' @ FormatInt now, Steps = rem\<rparr>
           in insert_at (clamp_pos after execJobs) newJob execJobs)"

text \<open>
  \<^verbatim>\<open>stepIndex := map[string]int{}; for i, s := range job.Steps { stepIndex[s.Name] = i }\<close>:
  a later step of the same name overwrites the entry of an earlier one.
\<close>

definition stepIndex :: "Step list \<Rightarrow> string \<rightharpoonup> int" where
  "stepIndex steps =
     foldl (\<lambda>m (i, s). m(step_Name s \<mapsto> int i)) Map.empty (zip [0..<length steps] steps)"

subsection \<open>What the interpreter takes from its host\<close>

text \<open>
  The regular expressions (\<^verbatim>\<open>regexp.Compile\<close>, \<^verbatim>\<open>MatchString\<close>), the parser of durations
  (\<^verbatim>\<open>time.ParseDuration\<close>), the clock, the operating system that runs a command, the
  Go runtime and the YAML decoder are not code of the program. The interpreter is
  modelled over any of them:
  \<^item> \<open>regexp_Compile pat\<close> is \<open>None\<close> when \<open>pat\<close> does not compile, else the
    \<^verbatim>\<open>MatchString\<close> of the compiled expression;
  \<^item> \<open>ParseDuration s\<close> is \<open>None\<close> on a malformed duration, else the nanoseconds;
  \<^item> \<open>command_result n cmdLine timeout idleTimeout\<close> is what the \<open>n\<close>-th call of
    \<^verbatim>\<open>runLocalCommandExec\<close> (counting from 0) gives: the exit code, whether the returned
    error is not \<^verbatim>\<open>nil\<close>, and the bytes written to the output buffer;
  \<^item> \<open>UnixNano n\<close> is the \<open>n\<close>-th reading of \<^verbatim>\<open>time.Now().UnixNano()\<close>;
  \<^item> \<open>growslice oldCap newLen\<close> is the capacity the runtime gives the new backing array
    when \<^verbatim>\<open>append\<close> has to grow a slice of capacity \<open>oldCap\<close> to length \<open>newLen\<close>;
  \<^item> \<open>decoded_cap n\<close> is the capacity of the slice \<^verbatim>\<open>p.Pipeline.Jobs\<close> that the decoder
    leaves for \<open>n\<close> declared jobs.
\<close>

record host =
  regexp_Compile :: "string \<Rightarrow> (string \<Rightarrow> bool) option"
  ParseDuration :: "string \<Rightarrow> int option"
  command_result :: "nat \<Rightarrow> string \<Rightarrow> int \<Rightarrow> int \<Rightarrow> int \<times> bool \<times> string"
  UnixNano :: "nat \<Rightarrow> int"
  growslice :: "nat \<Rightarrow> nat \<Rightarrow> nat"
  decoded_cap :: "nat \<Rightarrow> nat"

subsection \<open>The state of a run and the outcome of a decision\<close>

text \<open>
  The variables of \<^verbatim>\<open>RunWithArgs\<close> that the loops change, and what they share.
  \<^item> \<open>execJobs\<close> is the working job list, the elements of the slice \<^verbatim>\<open>execJobs\<close>, and
    \<open>execJobs_cap\<close> the capacity of its backing array.
  \<^item> \<^verbatim>\<open>job := &execJobs[ji]\<close> is a pointer into that backing array. \<open>job\<close> is the
    job the pointer shows, \<^verbatim>\<open>*job\<close>. \<open>job_at\<close> is \<open>Some i\<close> while the pointer is at
    index \<open>i\<close> of the array \<^verbatim>\<open>execJobs\<close> has now, and \<open>None\<close> once \<^verbatim>\<open>execJobs\<close> has
    moved to a new array and the pointer is left in the old one, which nothing writes
    any more.
  \<^item> \<open>allJobs\<close> is what the slice \<^verbatim>\<open>p.Pipeline.Jobs\<close> shows, the declared jobs.
    Without \<^verbatim>\<open>pipeline.runs\<close> the program sets \<^verbatim>\<open>execJobs = p.Pipeline.Jobs\<close> and the
    two slices have one backing array; \<open>allJobs_shared\<close> says that they still have.
  \<^item> \<open>ji\<close>, \<open>si\<close> are the two cursors and \<open>vars\<close> is the variable environment.
  \<^item> \<open>executed\<close> lists the command lines handed to \<^verbatim>\<open>runLocalCommandExec\<close> so far (the
    lines the program prints after \<^verbatim>\<open>->\<close>), and \<open>clock_reads\<close> counts the readings of
    the clock.
  Messages and log lines are not modelled.
\<close>

record run_state =
  execJobs :: "Job list"
  execJobs_cap :: nat
  allJobs :: "Job list"
  allJobs_shared :: bool
  job :: Job
  job_at :: "nat option"
  ji :: int
  si :: int
  vars :: vars
  executed :: "string list"
  clock_reads :: nat

text \<open>
  \<^verbatim>\<open>*execJobs = append((*execJobs)[:pos], append([]Job{j}, (*execJobs)[pos:]...)...)\<close>,
  in \<^verbatim>\<open>resolveJobIndexExec\<close> and in \<^verbatim>\<open>insertResumeJob\<close>, with \<open>xs\<close> the elements of
  the result. Both functions assign only when they insert; the list they return is the
  old one otherwise. The outer \<^verbatim>\<open>append\<close> writes into the backing array of
  \<^verbatim>\<open>execJobs\<close> when its capacity holds the new length: then the pointer \<^verbatim>\<open>job\<close> and,
  if it shares the array, \<^verbatim>\<open>p.Pipeline.Jobs\<close> show the new elements at their
  positions. Otherwise it fills a new array of the capacity the runtime chooses, and the
  old array stays as it is, with the pointer and \<^verbatim>\<open>p.Pipeline.Jobs\<close> in it.
\<close>

definition set_execJobs :: "host \<Rightarrow> Job list \<Rightarrow> run_state \<Rightarrow> run_state" where
  "set_execJobs h xs st =
     (if xs = execJobs st then st
      else if length xs \<le> execJobs_cap st then
        st\<lparr>execJobs := xs,
           job := (case job_at st of Some i \<Rightarrow> xs ! i | None \<Rightarrow> job st),
           allJobs := (if allJobs_shared st then take (length (allJobs st)) xs else allJobs st)\<rparr>
      else
        st\<lparr>execJobs := xs,
           execJobs_cap := max (length xs) (growslice h (execJobs_cap st) (length xs)),
           job_at := None,
           allJobs_shared := False\<rparr>)"

text \<open>\<open>Return rc\<close>: \<^verbatim>\<open>RunWithArgs\<close> returns \<open>rc\<close>. \<open>Next x\<close>: control goes on with \<open>x\<close>.\<close>

datatype 'a outcome = Return int | Next 'a

definition and_then :: "'a outcome \<Rightarrow> ('a \<Rightarrow> 'b outcome) \<Rightarrow> 'b outcome" where
  "and_then m f = (case m of Return rc \<Rightarrow> Return rc | Next x \<Rightarrow> f x)"

subsection \<open>Applying an action (the four \<^verbatim>\<open>switch\<close> statements of \<^verbatim>\<open>RunWithArgs\<close>)\<close>

text \<open>
  The switch on \<^verbatim>\<open>cond.Action\<close>, \<^verbatim>\<open>w.Action\<close>, \<^verbatim>\<open>step.ElseAction\<close> and
  \<^verbatim>\<open>step.OnTimeout\<close> is written four times in the source, the same up to the texts of
  the messages:
  \<^verbatim>\<open>
  switch cond.Action {
  case "continue":
  case "drop":      return 0
  case "goto_step":
      if cond.Step == "" { return 6 }
      idx, ok := stepIndex[cond.Step]
      if !ok { return 6 }
      si = idx - 1
  case "goto_job":
      if cond.Job == "" { return 6 }
      found, ok := resolveJobIndexExec(&execJobs, p.Pipeline.Jobs, cond.Job, ji)
      if !ok { return 6 }
      ji = found - 1
      insertResumeJob(&execJobs, found, *job, si)
      si = len(job.Steps)
  case "fail":      return 7
  default:          return 6
  }
  \<close>
  \<open>sidx\<close> is the map \<^verbatim>\<open>stepIndex\<close> that the job loop built when it entered the job.
  In the \<^verbatim>\<open>goto_job\<close> case \<^verbatim>\<open>*job\<close> is read after the insertion that
  \<^verbatim>\<open>resolveJobIndexExec\<close> may have made, and \<^verbatim>\<open>len(job.Steps)\<close> after the one of
  \<^verbatim>\<open>insertResumeJob\<close>. \<^verbatim>\<open>insertResumeJob\<close> reads the clock only when it inserts.
\<close>

definition apply_action ::
  "host \<Rightarrow> (string \<rightharpoonup> int) \<Rightarrow> string \<Rightarrow> string \<Rightarrow> string \<Rightarrow> run_state \<Rightarrow> run_state outcome" where
  "apply_action h sidx action target_step target_job st =
     (if action = ''continue'' then Next st
      else if action = ''drop'' then Return 0
      else if action = ''goto_step'' then
        (if target_step = [] then Return 6
         else case sidx target_step of
                None \<Rightarrow> Return 6
              | Some idx \<Rightarrow> Next (st\<lparr>si := idx - 1\<rparr>))
      else if action = ''goto_job'' then
        (if target_job = [] then Return 6
         else case resolveJobIndexExec (execJobs st) (allJobs st) target_job (ji st) of
                (execJobs', found, ok) \<Rightarrow>
                  if \<not> ok then Return 6
                  else
                    let st1 = (set_execJobs h execJobs' st)\<lparr>ji := found - 1\<rparr>;
                        st2 = (set_execJobs h
                                 (insertResumeJob (execJobs st1) found (job st1) (si st1)
                                    (UnixNano h (clock_reads st1))) st1)
                              \<lparr>clock_reads :=
                                 (if si st1 + 1 \<ge> int (length (Steps (job st1))) then clock_reads st1
                                  else Suc (clock_reads st1))\<rparr>
                    in Next (st2\<lparr>si := int (length (Steps (job st2)))\<rparr>))
      else if action = ''fail'' then Return 7
      else Return 6)"

subsection \<open>The rule stages\<close>

text \<open>
  The legacy conditions, \<^verbatim>\<open>for _, cond := range step.Conditions\<close>: the pattern is
  interpolated and compiled (\<^verbatim>\<open>return 6\<close> when it does not compile); on a match
  \<^verbatim>\<open>conditionMatched = true\<close> and the action is applied. The body has no \<^verbatim>\<open>break\<close>:
  after an action that does not return, the loop goes on with the next condition.
\<close>

fun eval_conditions ::
  "host \<Rightarrow> (string \<rightharpoonup> int) \<Rightarrow> string \<Rightarrow> Condition list \<Rightarrow> bool \<Rightarrow> run_state
     \<Rightarrow> (bool \<times> run_state) outcome" where
  "eval_conditions h sidx outStr [] conditionMatched st = Next (conditionMatched, st)"
| "eval_conditions h sidx outStr (cond # conds) conditionMatched st =
     (case regexp_Compile h (interpolate (Pattern cond) (vars st)) of
        None \<Rightarrow> Return 6
      | Some re \<Rightarrow>
          if re outStr then
            and_then (apply_action h sidx (cond_Action cond) (cond_Step cond) (cond_Job cond) st)
              (\<lambda>st'. eval_conditions h sidx outStr conds True st')
          else eval_conditions h sidx outStr conds conditionMatched st)"

text \<open>
  The operators of one when-rule, as the source tests them:
  \<^verbatim>\<open>
  match := false
  if w.Contains != "" { if strings.Contains(outStr, interpolate(w.Contains, vars)) { match = true } }
  if !match && w.Equals != "" {
      if strings.TrimSpace(outStr) == strings.TrimSpace(interpolate(w.Equals, vars)) { match = true } }
  if !match && w.Regex != "" {
      re, err := regexp.Compile(interpolate(w.Regex, vars))
      if err != nil { return 6 }
      if re.MatchString(outStr) { match = true } }
  if !match && w.ExitCode != nil { if lastExitCode == *w.ExitCode { match = true } }
  \<close>
\<close>

definition when_match :: "host \<Rightarrow> vars \<Rightarrow> string \<Rightarrow> int \<Rightarrow> WhenRule \<Rightarrow> bool outcome" where
  "when_match h vs outStr lastExitCode w =
     (let match = False;
          match = (if Contains w \<noteq> [] \<and> strings_Contains outStr (interpolate (Contains w) vs)
                   then True else match);
          match = (if \<not> match \<and> Equals w \<noteq> [] \<and>
                      strings_TrimSpace outStr = strings_TrimSpace (interpolate (Equals w) vs)
                   then True else match)
      in and_then
           (if \<not> match \<and> Regex w \<noteq> [] then
              (case regexp_Compile h (interpolate (Regex w) vs) of
                 None \<Rightarrow> Return 6
               | Some re \<Rightarrow> Next (if re outStr then True else match))
            else Next match)
           (\<lambda>match.
              Next (if \<not> match \<and> ExitCode w \<noteq> None \<and> lastExitCode = the (ExitCode w)
                    then True else match)))"

text \<open>
  \<^verbatim>\<open>for _, w := range step.When\<close>: the first rule that matches sets
  \<^verbatim>\<open>conditionMatched\<close>, has its action applied, and ends the loop (\<^verbatim>\<open>break\<close>).
\<close>

fun eval_when ::
  "host \<Rightarrow> (string \<rightharpoonup> int) \<Rightarrow> string \<Rightarrow> int \<Rightarrow> WhenRule list \<Rightarrow> run_state
     \<Rightarrow> (bool \<times> run_state) outcome" where
  "eval_when h sidx outStr lastExitCode [] st = Next (False, st)"
| "eval_when h sidx outStr lastExitCode (w # ws) st =
     and_then (when_match h (vars st) outStr lastExitCode w)
       (\<lambda>match.
          if match then
            and_then (apply_action h sidx (when_Action w) (when_Step w) (when_Job w) st)
              (\<lambda>st'. Next (True, st'))
          else eval_when h sidx outStr lastExitCode ws st)"

text \<open>
  What \<^verbatim>\<open>RunWithArgs\<close> does with a step once its commands have run, from
  \<^verbatim>\<open>outStr := combinedOut.String()\<close> to the end of the body of the step loop:
  \<^verbatim>\<open>
  if step.SaveOutput != "" { vars[step.SaveOutput] = strings.TrimSpace(outStr) }
  conditionMatched := false
  for _, cond := range step.Conditions { ... }
  if !conditionMatched { for _, w := range step.When { ... } }
  if !conditionMatched && step.ElseAction != "" { switch step.ElseAction { ... } }
  // mark else_action as handled so the default non-zero handling doesn't fire
  conditionMatched = true
  if errOccurred && lastExitCode == 124 && step.OnTimeout != "" && !conditionMatched {
      switch step.OnTimeout { ... }
      conditionMatched = true
  }
  if !conditionMatched && errOccurred { return 5 }
  \<close>
  \<open>step\<close> is \<^verbatim>\<open>*step\<close>, for the pointer \<^verbatim>\<open>step := &job.Steps[si]\<close> taken at the head of
  the body; the arrays of steps are never written.
\<close>

definition evaluate_step ::
  "host \<Rightarrow> (string \<rightharpoonup> int) \<Rightarrow> Step \<Rightarrow> string \<Rightarrow> int \<Rightarrow> bool \<Rightarrow> run_state \<Rightarrow> run_state outcome" where
  "evaluate_step h sidx step outStr lastExitCode errOccurred st =
     (let st = (if SaveOutput step \<noteq> []
                then st\<lparr>vars := set_var (SaveOutput step) (strings_TrimSpace outStr) (vars st)\<rparr>
                else st)
      in
      and_then (eval_conditions h sidx outStr (Conditions step) False st)
        (\<lambda>(conditionMatched, st).
      and_then (if \<not> conditionMatched
                then eval_when h sidx outStr lastExitCode (When step) st
                else Next (conditionMatched, st))
        (\<lambda>(conditionMatched, st).
      and_then (if \<not> conditionMatched \<and> ElseAction step \<noteq> []
                then apply_action h sidx (ElseAction step) (ElseStep step) (ElseJob step) st
                else Next st)
        (\<lambda>st.
      let conditionMatched = True in
      and_then (if errOccurred \<and> lastExitCode = 124 \<and> OnTimeout step \<noteq> [] \<and> \<not> conditionMatched
                then and_then
                       (apply_action h sidx (OnTimeout step) (OnTimeoutStep step) (OnTimeoutJob step) st)
                       (\<lambda>st'. Next (True, st'))
                else Next (conditionMatched, st))
        (\<lambda>(conditionMatched, st).
      if \<not> conditionMatched \<and> errOccurred then Return 5 else Next st)))))"

subsection \<open>Running a step, a job and the pipeline\<close>

text \<open>
  \<^verbatim>\<open>cmds := step.Commands; if len(cmds) == 0 && step.Command != "" { cmds = []string{step.Command} }\<close>
\<close>

definition step_commands :: "Step \<Rightarrow> string list" where
  "step_commands step =
     (let cmds = Commands step
      in if length cmds = 0 \<and> Command step \<noteq> [] then [Command step] else cmds)"

text \<open>
  The two durations of a step; a malformed one ends the run with 6. The idle timeout of
  the step comes before the global \<^verbatim>\<open>--idle-timeout\<close> (\<open>defaultIdleTimeoutStr\<close>).
\<close>

definition step_timeouts :: "host \<Rightarrow> string \<Rightarrow> Step \<Rightarrow> (int \<times> int) outcome" where
  "step_timeouts h defaultIdleTimeoutStr step =
     and_then
       (if Timeout step \<noteq> [] then
          (case ParseDuration h (Timeout step) of None \<Rightarrow> Return 6 | Some d \<Rightarrow> Next d)
        else Next 0)
       (\<lambda>stepTimeout.
     and_then
       (if IdleTimeout step \<noteq> [] then
          (case ParseDuration h (IdleTimeout step) of None \<Rightarrow> Return 6 | Some d \<Rightarrow> Next d)
        else if defaultIdleTimeoutStr \<noteq> [] then
          (case ParseDuration h defaultIdleTimeoutStr of None \<Rightarrow> Return 6 | Some d \<Rightarrow> Next d)
        else Next 0)
       (\<lambda>stepIdleTimeout. Next (stepTimeout, stepIdleTimeout)))"

text \<open>
  \<^verbatim>\<open>
  for _, c := range cmds {
      rc := interpolate(c, vars)
      exitCode, err := runLocalCommandExec(rc, stepTimeout, stepIdleTimeout, &outBuf, &outBuf)
      lastExitCode = exitCode
      if err != nil { errOccurred = true }
      combinedOut.Write(outBuf.Bytes())
  }
  \<close>
\<close>

fun run_cmds ::
  "host \<Rightarrow> int \<Rightarrow> int \<Rightarrow> string list \<Rightarrow> string \<times> int \<times> bool \<times> run_state
     \<Rightarrow> string \<times> int \<times> bool \<times> run_state" where
  "run_cmds h stepTimeout stepIdleTimeout [] acc = acc"
| "run_cmds h stepTimeout stepIdleTimeout (c # cs) (combinedOut, lastExitCode, errOccurred, st) =
     (let rc = interpolate c (vars st)
      in case command_result h (length (executed st)) rc stepTimeout stepIdleTimeout of
           (exitCode, err, out) \<Rightarrow>
             run_cmds h stepTimeout stepIdleTimeout cs
               (combinedOut @ out, exitCode, errOccurred \<or> err, st\<lparr>executed := executed st @ [rc]\<rparr>))"

text \<open>
  How far a loop got: out of fuel, \<^verbatim>\<open>RunWithArgs\<close> returned (with the command lines
  executed up to there), or the loop is to go on.
\<close>

datatype progress = OutOfFuel | Exit int "string list" | Continue run_state

text \<open>
  The body of the step loop: \<^verbatim>\<open>step := &job.Steps[si]\<close>, \<^verbatim>\<open>return 4\<close> for a step type
  other than \<^verbatim>\<open>command\<close>, the durations, the commands, then the rules.
\<close>

definition run_step :: "host \<Rightarrow> string \<Rightarrow> (string \<rightharpoonup> int) \<Rightarrow> run_state \<Rightarrow> progress" where
  "run_step h defaultIdleTimeoutStr sidx st =
     (let step = Steps (job st) ! nat (si st)
      in if ToLower (Type step) \<noteq> ''command'' \<and> Type step \<noteq> [] then Exit 4 (executed st)
         else case step_timeouts h defaultIdleTimeoutStr step of
                Return rc \<Rightarrow> Exit rc (executed st)
              | Next (stepTimeout, stepIdleTimeout) \<Rightarrow>
                  (case run_cmds h stepTimeout stepIdleTimeout (step_commands step) ([], 0, False, st) of
                     (outStr, lastExitCode, errOccurred, st1) \<Rightarrow>
                       (case evaluate_step h sidx step outStr lastExitCode errOccurred st1 of
                          Return rc \<Rightarrow> Exit rc (executed st1)
                        | Next st2 \<Rightarrow> Continue st2)))"

text \<open>
  \<^verbatim>\<open>for si := 0; si < len(job.Steps); si++ { ... }\<close> and
  \<^verbatim>\<open>for ji := 0; ji < len(execJobs); ji++ { job := &execJobs[ji]; ... }\<close>, with the map
  \<^verbatim>\<open>stepIndex\<close> built from \<^verbatim>\<open>job.Steps\<close> on entry. The test of the step loop and
  the body read the job through the pointer each time. Jumps can make the loops run
  forever, so both take fuel: each iteration, and each entry into the step loop, costs
  one unit.
\<close>

fun step_loop :: "nat \<Rightarrow> host \<Rightarrow> string \<Rightarrow> (string \<rightharpoonup> int) \<Rightarrow> run_state \<Rightarrow> progress" where
  "step_loop 0 h d sidx st = OutOfFuel"
| "step_loop (Suc n) h d sidx st =
     (if si st < int (length (Steps (job st))) then
        (case run_step h d sidx st of
           Continue st' \<Rightarrow> step_loop n h d sidx (st'\<lparr>si := si st' + 1\<rparr>)
         | r \<Rightarrow> r)
      else Continue st)"

fun job_loop :: "nat \<Rightarrow> host \<Rightarrow> string \<Rightarrow> run_state \<Rightarrow> progress" where
  "job_loop 0 h d st = OutOfFuel"
| "job_loop (Suc n) h d st =
     (if ji st < int (length (execJobs st)) then
        (let st0 = st\<lparr>job := execJobs st ! nat (ji st), job_at := Some (nat (ji st)), si := 0\<rparr>
         in case step_loop n h d (stepIndex (Steps (job st0))) st0 of
              Continue st' \<Rightarrow> job_loop n h d (st'\<lparr>ji := ji st' + 1\<rparr>)
            | r \<Rightarrow> r)
      else Exit 0 (executed st))"

text \<open>
  The execution order: the jobs named by \<^verbatim>\<open>pipeline.runs\<close> (\<^verbatim>\<open>return 6\<close> for an unknown
  name; of two jobs with one name the map \<^verbatim>\<open>jm\<close> keeps the later), else the declared jobs.
\<close>

fun jobs_of_runs :: "Job list \<Rightarrow> string list \<Rightarrow> Job list \<Rightarrow> Job list outcome" where
  "jobs_of_runs jobs [] acc = Next acc"
| "jobs_of_runs jobs (name # names) acc =
     (case find (\<lambda>j. job_Name j = name) (rev jobs) of
        None \<Rightarrow> Return 6
      | Some j \<Rightarrow> jobs_of_runs jobs names (acc @ [j]))"

text \<open>
  The capacity of a slice that has grown from \<^verbatim>\<open>nil\<close> to \<open>n\<close> elements by
  \<^verbatim>\<open>execJobs = append(execJobs, j)\<close>, one element at a time.
\<close>

fun appended_cap :: "host \<Rightarrow> nat \<Rightarrow> nat" where
  "appended_cap h 0 = 0"
| "appended_cap h (Suc n) =
     (if Suc n \<le> appended_cap h n then appended_cap h n
      else max (Suc n) (growslice h (appended_cap h n) (Suc n)))"

text \<open>
  With \<^verbatim>\<open>pipeline.runs\<close> the working list is a slice of its own; without, it is
  \<^verbatim>\<open>p.Pipeline.Jobs\<close> itself. Before the job loop there is no pointer \<^verbatim>\<open>job\<close>: the
  state starts with the zero \<^verbatim>\<open>Job\<close>, which the job loop overwrites on entry.
\<close>

definition run_pipeline ::
  "nat \<Rightarrow> host \<Rightarrow> string \<Rightarrow> string list \<Rightarrow> Job list \<Rightarrow> vars \<Rightarrow> progress" where
  "run_pipeline fuel h defaultIdleTimeoutStr runs jobs vars0 =
     (if length runs > 0 then
        (case jobs_of_runs jobs runs [] of
           Return rc \<Rightarrow> Exit rc []
         | Next execJobs0 \<Rightarrow>
             job_loop fuel h defaultIdleTimeoutStr
               \<lparr>execJobs = execJobs0, execJobs_cap = appended_cap h (length execJobs0),
                allJobs = jobs, allJobs_shared = False,
                job = \<lparr>job_Name = [], Steps = []\<rparr>, job_at = None,
                ji = 0, si = 0, vars = vars0, executed = [], clock_reads = 0\<rparr>)
      else
        job_loop fuel h defaultIdleTimeoutStr
          \<lparr>execJobs = jobs, execJobs_cap = max (length jobs) (decoded_cap h (length jobs)),
           allJobs = jobs, allJobs_shared = True,
           job = \<lparr>job_Name = [], Steps = []\<rparr>, job_at = None,
           ji = 0, si = 0, vars = vars0, executed = [], clock_reads = 0\<rparr>)"

subsection \<open>A host and pipelines for the examples\<close>

text \<open>
  The examples below run on a small host. Its regular expressions are the patterns
  without metacharacters, which match the strings that contain them (\<^verbatim>\<open>MatchString\<close> is
  not anchored); the pattern \<^verbatim>\<open>(\<close> does not compile. Its shell knows \<^verbatim>\<open>echo\<close> (the
  text and a newline, exit code 0), \<^verbatim>\<open>sleep 10\<close> (killed with the sentinel 124 and an
  error under a timeout below ten seconds), \<^verbatim>\<open>exit 42\<close> and \<^verbatim>\<open>false\<close> (exit codes 42
  and 1, with the \<^verbatim>\<open>*exec.ExitError\<close>). Its only duration is \<^verbatim>\<open>2s\<close>. Its
  runtime doubles the capacity of a slice that has to grow, or takes the length needed
  when that is more, and its decoder leaves no spare capacity.
\<close>

definition demo_regexp :: "string \<Rightarrow> (string \<Rightarrow> bool) option" where
  "demo_regexp pat = (if pat = ''('' then None else Some (\<lambda>s. strings_Contains s pat))"

definition demo_ParseDuration :: "string \<Rightarrow> int option" where
  "demo_ParseDuration s = (if s = ''2s'' then Some 2000000000 else None)"

definition demo_command :: "nat \<Rightarrow> string \<Rightarrow> int \<Rightarrow> int \<Rightarrow> int \<times> bool \<times> string" where
  "demo_command n cmdLine timeout idleTimeout =
     (if take 5 cmdLine = ''echo '' then (0, False, drop 5 cmdLine @ [CHR 0x0A])
      else if cmdLine = ''sleep 10'' \<and>
              (0 < timeout \<and> timeout < 10000000000 \<or> 0 < idleTimeout \<and> idleTimeout < 10000000000)
           then (124, True, [])
      else if cmdLine = ''exit 42'' then (42, True, [])
      else if cmdLine = ''false'' then (1, True, [])
      else (0, False, []))"

definition demo_host :: host where
  "demo_host =
     \<lparr>regexp_Compile = demo_regexp, ParseDuration = demo_ParseDuration,
      command_result = demo_command, UnixNano = (\<lambda>n. 1700000000000000000 + int n),
      growslice = (\<lambda>oldCap newLen. if newLen \<le> 2 * oldCap then 2 * oldCap else newLen),
      decoded_cap = (\<lambda>n. n)\<rparr>"

text \<open>A step of type \<^verbatim>\<open>command\<close> with one command and no rule, and a when-rule with no operator.\<close>

definition command_step :: "string \<Rightarrow> string \<Rightarrow> Step" where
  "command_step name cmd =
     \<lparr>step_Name = name, Type = ''command'', Command = cmd, Commands = [], SaveOutput = [],
      Silent = False, Conditions = [], When = [], ElseAction = [], ElseStep = [], ElseJob = [],
      Timeout = [], IdleTimeout = [], OnTimeout = [], OnTimeoutStep = [], OnTimeoutJob = []\<rparr>"

definition no_when :: WhenRule where
  "no_when =
     \<lparr>Contains = [], Equals = [], Regex = [], ExitCode = None,
      when_Action = [], when_Step = [], when_Job = []\<rparr>"

text \<open>
  The state in which the job loop has entered job \<open>i\<close> of the working list \<open>working\<close>,
  built from \<^verbatim>\<open>pipeline.runs\<close>, with the declared jobs \<open>declared\<close>, before any command
  has run.
\<close>

definition entry_state :: "host \<Rightarrow> Job list \<Rightarrow> Job list \<Rightarrow> nat \<Rightarrow> run_state" where
  "entry_state h working declared i =
     \<lparr>execJobs = working, execJobs_cap = appended_cap h (length working),
      allJobs = declared, allJobs_shared = False,
      job = working ! i, job_at = Some i,
      ji = int i, si = 0, vars = [], executed = [], clock_reads = 0\<rparr>"

text \<open>Two jobs for the examples: a step name of one is not a step name of the other.\<close>

definition job_build :: Job where
  "job_build =
     \<lparr>job_Name = ''build'',
      Steps = [command_step ''compile'' ''echo compile'', command_step ''test'' ''echo test'']\<rparr>"

definition job_release :: Job where
  "job_release = \<lparr>job_Name = ''release'', Steps = [command_step ''deploy'' ''echo deploy'']\<rparr>"

text \<open>
  A pipeline whose second job jumps back to the first, twice. The only step of job
  \<^verbatim>\<open>b\<close> appends an \<^verbatim>\<open>x\<close> to the variable \<^verbatim>\<open>n\<close>. Step \<^verbatim>\<open>s1\<close> of job \<^verbatim>\<open>a\<close>
  goes to job \<^verbatim>\<open>b\<close> when \<^verbatim>\<open>n\<close> is \<^verbatim>\<open>x\<close> or \<^verbatim>\<open>xx\<close>, so on the first two passes
  through \<^verbatim>\<open>a\<close> and not on the third; step \<^verbatim>\<open>s2\<close> is the step left over at each
  jump.
\<close>

definition job_b :: Job where
  "job_b = \<lparr>job_Name = ''b'', Steps = [(command_step ''t1'' ''echo {{n}}x'')\<lparr>SaveOutput := ''n''\<rparr>]\<rparr>"

definition job_a :: Job where
  "job_a =
     \<lparr>job_Name = ''a'',
      Steps =
        [(command_step ''s1'' ''echo n={{n}}'')
           \<lparr>When :=
              [no_when\<lparr>Equals := ''n=x'', when_Action := ''goto_job'', when_Job := ''b''\<rparr>,
               no_when\<lparr>Equals := ''n=xx'', when_Action := ''goto_job'', when_Job := ''b''\<rparr>]\<rparr>,
         command_step ''s2'' ''echo tail'']\<rparr>"

text \<open>
  A pipeline with four declared jobs, of which \<^verbatim>\<open>pipeline.runs\<close> names \<^verbatim>\<open>first\<close>,
  \<^verbatim>\<open>second\<close> and \<^verbatim>\<open>third\<close>. The only step of \<^verbatim>\<open>first\<close> has two legacy conditions
  that both match its output: go to job \<^verbatim>\<open>third\<close>, and go to job \<^verbatim>\<open>extra\<close>, which
  is declared and not in the execution order.
\<close>

definition step_two_jumps :: Step where
  "step_two_jumps =
     (command_step ''s1'' ''echo go'')
       \<lparr>Conditions :=
          [\<lparr>Pattern = ''go'', cond_Action = ''goto_job'', cond_Step = [], cond_Job = ''third''\<rparr>,
           \<lparr>Pattern = ''go'', cond_Action = ''goto_job'', cond_Step = [], cond_Job = ''extra''\<rparr>]\<rparr>"

definition job_first :: Job where
  "job_first = \<lparr>job_Name = ''first'', Steps = [step_two_jumps]\<rparr>"

definition job_second :: Job where
  "job_second = \<lparr>job_Name = ''second'', Steps = [command_step ''t1'' ''echo second'']\<rparr>"

definition job_third :: Job where
  "job_third = \<lparr>job_Name = ''third'', Steps = [command_step ''t1'' ''echo third'']\<rparr>"

definition job_extra :: Job where
  "job_extra = \<lparr>job_Name = ''extra'', Steps = [command_step ''t1'' ''echo extra'']\<rparr>"

text \<open>
  A job whose last step has two legacy conditions that both match its output: go to
  step \<^verbatim>\<open>s1\<close>, and go to job \<^verbatim>\<open>b\<close>.
\<close>

definition step_back_and_away :: Step where
  "step_back_and_away =
     (command_step ''s2'' ''echo done'')
       \<lparr>Conditions :=
          [\<lparr>Pattern = ''done'', cond_Action = ''goto_step'', cond_Step = ''s1'', cond_Job = []\<rparr>,
           \<lparr>Pattern = ''done'', cond_Action = ''goto_job'', cond_Step = [], cond_Job = ''b''\<rparr>]\<rparr>"

definition job_last :: Job where
  "job_last = \<lparr>job_Name = ''l'', Steps = [command_step ''s1'' ''echo start'', step_back_and_away]\<rparr>"

text \<open>A job whose only command fails, with no rule on the step.\<close>

definition job_failing :: Job where
  "job_failing = \<lparr>job_Name = ''j1'', Steps = [command_step ''s1'' ''false'']\<rparr>"

text \<open>
  A job whose first step runs into its timeout and names a recovery step in
  \<^verbatim>\<open>on_timeout\<close>, as in the README's example, with one step between the two.
\<close>

definition job_timeout :: Job where
  "job_timeout =
     \<lparr>job_Name = ''j1'',
      Steps =
        [(command_step ''slow'' ''sleep 10'')
           \<lparr>Timeout := ''2s'', OnTimeout := ''goto_step'', OnTimeoutStep := ''recover''\<rparr>,
         command_step ''mid'' ''echo skipped'',
         command_step ''recover'' ''echo recovered'']\<rparr>"

text \<open>A step with two legacy conditions that both match its output.\<close>

definition job_two_conditions :: Job where
  "job_two_conditions =
     \<lparr>job_Name = ''j1'',
      Steps =
        [(command_step ''s1'' ''echo a'')
           \<lparr>Conditions :=
              [\<lparr>Pattern = ''a'', cond_Action = ''continue'', cond_Step = [], cond_Job = []\<rparr>,
               \<lparr>Pattern = ''a'', cond_Action = ''fail'', cond_Step = [], cond_Job = []\<rparr>]\<rparr>,
         command_step ''s2'' ''echo next'']\<rparr>"

subsection \<open>The operators of a when-rule, as the specification words them\<close>

text \<open>
  The specification lists four operators, each with a test that counts only when the
  operator is present on the rule (a non-empty string, a non-\<^verbatim>\<open>nil\<close> exit code):
  substring containment, trimmed exact equality, regular-expression match, and equality
  with the last exit code. \<open>regex_malformed\<close> says that the rule has a regular
  expression that does not compile.
\<close>

definition contains_test :: "vars \<Rightarrow> string \<Rightarrow> WhenRule \<Rightarrow> bool" where
  "contains_test vs outStr w \<longleftrightarrow>
     Contains w \<noteq> [] \<and> strings_Contains outStr (interpolate (Contains w) vs)"

definition equals_test :: "vars \<Rightarrow> string \<Rightarrow> WhenRule \<Rightarrow> bool" where
  "equals_test vs outStr w \<longleftrightarrow>
     Equals w \<noteq> [] \<and> strings_TrimSpace outStr = strings_TrimSpace (interpolate (Equals w) vs)"

definition regex_test :: "host \<Rightarrow> vars \<Rightarrow> string \<Rightarrow> WhenRule \<Rightarrow> bool" where
  "regex_test h vs outStr w \<longleftrightarrow>
     Regex w \<noteq> [] \<and>
     (case regexp_Compile h (interpolate (Regex w) vs) of None \<Rightarrow> False | Some re \<Rightarrow> re outStr)"

definition exit_code_test :: "int \<Rightarrow> WhenRule \<Rightarrow> bool" where
  "exit_code_test lastExitCode w \<longleftrightarrow> ExitCode w = Some lastExitCode"

definition regex_malformed :: "host \<Rightarrow> vars \<Rightarrow> WhenRule \<Rightarrow> bool" where
  "regex_malformed h vs w \<longleftrightarrow>
     Regex w \<noteq> [] \<and> regexp_Compile h (interpolate (Regex w) vs) = None"

text \<open>
  The pipeline of \<^verbatim>\<open>run_conditions_test.go\<close>, with the pattern of the condition taken
  from the saved variable: the first step saves its output under \<^verbatim>\<open>out1\<close> and jumps
  to the third when the output matches \<^verbatim>\<open>{{out1}}\<close>.
\<close>

definition step_capture :: Step where
  "step_capture =
     (command_step ''step1'' ''echo alpha'')
       \<lparr>SaveOutput := ''out1'',
        Conditions :=
          [\<lparr>Pattern = ''{{out1}}'', cond_Action = ''goto_step'', cond_Step = ''step3'',
            cond_Job = []\<rparr>]\<rparr>"

definition job_capture :: Job where
  "job_capture =
     \<lparr>job_Name = ''j1'',
      Steps =
        [step_capture,
         command_step ''step2'' ''echo SHOULD_NOT_RUN'',
         command_step ''step3'' ''echo GOT {{out1}}'']\<rparr>"

text \<open>
  When-rules: one whose containment test succeeds and whose regular expression does not
  compile, one with that regular expression and an exit code, one whose equality test fails.
\<close>

definition when_hello :: WhenRule where
  "when_hello =
     no_when\<lparr>Contains := ''hello'', Regex := ''('', when_Action := ''goto_step'',
             when_Step := ''test''\<rparr>"

definition when_bad_regex :: WhenRule where
  "when_bad_regex = no_when\<lparr>Regex := ''('', ExitCode := Some 0, when_Action := ''fail''\<rparr>"

definition when_nope :: WhenRule where
  "when_nope = no_when\<lparr>Equals := ''nope'', when_Action := ''fail''\<rparr>"

section \<open>Properties\<close>

subsection \<open>The log buffer\<close>

lemma length_trailing: "length (trailing n xs) = min n (length xs)"
  by (auto simp: trailing_def)

lemma trailing_append: "trailing n (trailing n w @ b) = trailing n (w @ b)"
proof (cases "length w \<le> n")
  case True
  then show ?thesis by (simp add: trailing_def)
next
  case False
  then have a: "length w + length b - n = (length w - n) + length b"
    and c: "length w - (length w - n) = n"
    and d: "length w - n + length b - length w = length b - n"
    by simp_all
  have "trailing n (trailing n w @ b) = drop (length b) (drop (length w - n) w @ b)"
    by (simp add: trailing_def c)
  also have "\<dots> = drop (length w - n + length b) w @ drop (length b - n) b"
    by (simp add: c add.commute)
  also have "\<dots> = drop (length w - n + length b) (w @ b)"
    by (simp add: d)
  also have "\<dots> = trailing n (w @ b)"
    by (simp add: trailing_def a)
  finally show ?thesis .
qed

lemma appendToBuf_eq:
  "length logBuf \<le> logCap \<Longrightarrow> appendToBuf logBuf b = trailing logCap (logBuf @ b)"
  by (auto simp: appendToBuf_def trailing_def Let_def)

lemma foldl_appendToBuf:
  "foldl appendToBuf (trailing logCap w) bs = trailing logCap (w @ concat bs)"
proof (induction bs arbitrary: w)
  case Nil
  then show ?case by simp
next
  case (Cons b bs)
  have "appendToBuf (trailing logCap w) b = trailing logCap (w @ b)"
    by (simp add: appendToBuf_eq length_trailing trailing_append)
  then have "foldl appendToBuf (trailing logCap w) (b # bs)
      = foldl appendToBuf (trailing logCap (w @ b)) bs"
    by simp
  also have "\<dots> = trailing logCap ((w @ b) @ concat bs)"
    by (rule Cons.IH)
  finally show ?case by simp
qed

text \<open>
  Claim C8. Start from the empty buffer and append the chunks \<open>bs\<close> one after the
  other, for any list \<open>bs\<close> (so also for every prefix of a longer sequence of appends):
  the buffer is never longer than the capacity 307200, it holds exactly the trailing
  307200 bytes of everything written so far, and all of it when that is no more than
  the capacity.
\<close>

theorem log_buffer_bounded_trailing:
  "length (foldl appendToBuf [] bs) \<le> 307200 \<and>
   foldl appendToBuf [] bs = trailing 307200 (concat bs) \<and>
   foldl appendToBuf [] bs = (if length (concat bs) \<le> 307200 then concat bs
                              else drop (length (concat bs) - 307200) (concat bs))"
proof -
  have "foldl appendToBuf (trailing logCap []) bs = trailing logCap ([] @ concat bs)"
    by (rule foldl_appendToBuf)
  then have eq: "foldl appendToBuf [] bs = trailing logCap (concat bs)"
    by (simp add: trailing_def)
  have cap: "logCap = 307200"
    by (simp add: logCap_def)
  show ?thesis
    unfolding eq cap by (simp add: trailing_def)
qed

subsection \<open>Looking up a job and a step\<close>

lemma job_index_Some:
  "job_index js t = Some i \<Longrightarrow> i < length js \<and> job_Name (js ! i) = t \<and> (\<forall>k<i. job_Name (js ! k) \<noteq> t)"
proof (induction js arbitrary: i)
  case Nil
  then show ?case by simp
next
  case (Cons j js)
  show ?case
  proof (cases "job_Name j = t")
    case True
    with Cons.prems show ?thesis by simp
  next
    case False
    with Cons.prems obtain i' where i': "job_index js t = Some i'" "i = Suc i'"
      by (auto split: option.splits)
    from Cons.IH[OF i'(1)] False i'(2) show ?thesis
      by (auto simp: nth_Cons split: nat.splits)
  qed
qed

lemma job_index_None: "job_index js t = None \<longleftrightarrow> t \<notin> job_Name ` set js"
  by (induction js) (auto split: option.splits)

lemma stepIndex_snoc:
  "stepIndex (steps @ [s]) = (stepIndex steps)(step_Name s \<mapsto> int (length steps))"
  by (simp add: stepIndex_def)

lemma stepIndex_None: "stepIndex steps name = None \<longleftrightarrow> name \<notin> step_Name ` set steps"
proof (induction steps rule: rev_induct)
  case Nil
  then show ?case by (simp add: stepIndex_def)
next
  case (snoc s steps)
  then show ?case by (auto simp: stepIndex_snoc)
qed

lemma stepIndex_Some:
  "stepIndex steps name = Some idx \<Longrightarrow>
     0 \<le> idx \<and> nat idx < length steps \<and> step_Name (steps ! nat idx) = name"
proof (induction steps rule: rev_induct)
  case Nil
  then show ?case by (simp add: stepIndex_def)
next
  case (snoc s steps)
  show ?case
  proof (cases "step_Name s = name")
    case True
    with snoc.prems have "idx = int (length steps)"
      by (simp add: stepIndex_snoc)
    with True show ?thesis by simp
  next
    case False
    with snoc.prems have "stepIndex steps name = Some idx"
      by (simp add: stepIndex_snoc)
    from snoc.IH[OF this] show ?thesis
      by (simp add: nth_append)
  qed
qed

text \<open>
  Claim C6. A \<^verbatim>\<open>goto_step\<close> is resolved against the step index of the current job
  alone: the result does not depend on the working job list or on the declared jobs, so
  a name that is no step of the current job ends the run with 6 even when another job
  has a step of that name. A non-empty name of a step of the current job is found, and
  whenever the action goes through, the cursor is left one before a step of that name,
  so that the increment of the step loop lands on it.
\<close>

theorem goto_step_resolution:
  "(target \<notin> step_Name ` set (Steps jb) \<longrightarrow>
      apply_action h (stepIndex (Steps jb)) ''goto_step'' target tj st = Return 6) \<and>
   (target \<noteq> [] \<and> target \<in> step_Name ` set (Steps jb) \<longrightarrow>
      (\<exists>st'. apply_action h (stepIndex (Steps jb)) ''goto_step'' target tj st = Next st')) \<and>
   (\<forall>st'. apply_action h (stepIndex (Steps jb)) ''goto_step'' target tj st = Next st' \<longrightarrow>
      (\<exists>idx<length (Steps jb).
          step_Name (Steps jb ! idx) = target \<and> st' = st\<lparr>si := int idx - 1\<rparr> \<and> si st' + 1 = int idx))"
proof (intro conjI impI allI)
  assume "target \<notin> step_Name ` set (Steps jb)"
  then have "stepIndex (Steps jb) target = None"
    by (simp add: stepIndex_None)
  then show "apply_action h (stepIndex (Steps jb)) ''goto_step'' target tj st = Return 6"
    by (simp add: apply_action_def)
next
  assume "target \<noteq> [] \<and> target \<in> step_Name ` set (Steps jb)"
  then have ne: "target \<noteq> []" and "stepIndex (Steps jb) target \<noteq> None"
    by (simp_all add: stepIndex_None)
  then obtain idx where "stepIndex (Steps jb) target = Some idx"
    by blast
  with ne show "\<exists>st'. apply_action h (stepIndex (Steps jb)) ''goto_step'' target tj st = Next st'"
    by (simp add: apply_action_def)
next
  fix st'
  assume a: "apply_action h (stepIndex (Steps jb)) ''goto_step'' target tj st = Next st'"
  then obtain idx where idx: "stepIndex (Steps jb) target = Some idx" and st': "st' = st\<lparr>si := idx - 1\<rparr>"
    by (auto simp: apply_action_def split: if_splits option.splits)
  from stepIndex_Some[OF idx] have "0 \<le> idx" "nat idx < length (Steps jb)"
    "step_Name (Steps jb ! nat idx) = target"
    by simp_all
  with st' show "\<exists>idx<length (Steps jb).
          step_Name (Steps jb ! idx) = target \<and> st' = st\<lparr>si := int idx - 1\<rparr> \<and> si st' + 1 = int idx"
    by (intro exI[of _ "nat idx"]) simp
qed

theorem goto_step_resolution_witness:
  "''deploy'' \<notin> step_Name ` set (Steps job_build) \<and>
   ''deploy'' \<in> step_Name ` set (Steps job_release) \<and>
   apply_action demo_host (stepIndex (Steps job_build))
     ''goto_step'' ''deploy'' [] (entry_state demo_host [job_build, job_release] [job_build, job_release] 0) = Return 6 \<and>
   ''test'' \<in> step_Name ` set (Steps job_build) \<and>
   apply_action demo_host (stepIndex (Steps job_build))
     ''goto_step'' ''test'' [] (entry_state demo_host [job_build, job_release] [job_build, job_release] 0)
     = Next ((entry_state demo_host [job_build, job_release] [job_build, job_release] 0)\<lparr>si := 0\<rparr>) \<and>
   step_Name (Steps job_build ! 1) = ''test''"
proof -
  have absent: "''deploy'' \<notin> step_Name ` set (Steps job_build)"
    by (simp add: job_build_def command_step_def)
  have present: "''test'' \<noteq> [] \<and> ''test'' \<in> step_Name ` set (Steps job_build)"
    by (simp add: job_build_def command_step_def)
  note inst = goto_step_resolution[where jb = job_build and h = demo_host and tj = "[]"
      and st = "entry_state demo_host [job_build, job_release] [job_build, job_release] 0"]
  from inst[where target = "''deploy''"] absent
  have r1: "apply_action demo_host (stepIndex (Steps job_build))
     ''goto_step'' ''deploy'' [] (entry_state demo_host [job_build, job_release] [job_build, job_release] 0) = Return 6"
    by blast
  from inst[where target = "''test''"] present obtain st' where
    st': "apply_action demo_host (stepIndex (Steps job_build))
      ''goto_step'' ''test'' [] (entry_state demo_host [job_build, job_release] [job_build, job_release] 0) = Next st'"
    by blast
  with inst[where target = "''test''"] obtain idx where idx: "idx < length (Steps job_build)"
    "step_Name (Steps job_build ! idx) = ''test''"
    "st' = (entry_state demo_host [job_build, job_release] [job_build, job_release] 0)\<lparr>si := int idx - 1\<rparr>"
    by blast
  from idx(1,2) have "idx = 1"
    by (cases idx) (simp_all add: job_build_def command_step_def)
  with idx(3) st' have r2: "apply_action demo_host
      (stepIndex (Steps job_build)) ''goto_step'' ''test'' [] (entry_state demo_host [job_build, job_release] [job_build, job_release] 0)
     = Next ((entry_state demo_host [job_build, job_release] [job_build, job_release] 0)\<lparr>si := 0\<rparr>)"
    by simp
  show ?thesis
    using absent present r1 r2 by (simp add: job_build_def job_release_def command_step_def)
qed

subsection \<open>Insertion into the working job list\<close>

lemma clamp_pos_le: "clamp_pos a xs \<le> length xs"
  by (auto simp: clamp_pos_def Let_def nat_le_iff)

lemma clamp_pos_in_range:
  "0 \<le> a \<Longrightarrow> a < int (length xs) \<Longrightarrow> clamp_pos a xs = nat a + 1"
  by (simp add: clamp_pos_def Let_def)

lemma length_insert_at: "length (insert_at pos j xs) = Suc (length xs)"
  by (simp add: insert_at_def)

lemma insert_at_nth_before:
  "k < pos \<Longrightarrow> pos \<le> length xs \<Longrightarrow> insert_at pos j xs ! k = xs ! k"
  by (simp add: insert_at_def nth_append)

lemma insert_at_nth: "pos \<le> length xs \<Longrightarrow> insert_at pos j xs ! pos = j"
  by (simp add: insert_at_def nth_append)

lemma take_insert_at:
  "k \<le> pos \<Longrightarrow> pos \<le> length xs \<Longrightarrow> take k (insert_at pos j xs) = take k xs"
  by (simp add: insert_at_def min_def)

lemma resolveJobIndexExec_found:
  assumes "resolveJobIndexExec xs declared target a = (xs', found, True)"
  shows "0 \<le> found \<and> nat found < length xs' \<and> job_Name (xs' ! nat found) = target"
proof (cases "job_index xs target")
  case (Some i)
  with assms have "xs' = xs" "found = int i"
    by (simp_all add: resolveJobIndexExec_def)
  with job_index_Some[OF Some] show ?thesis by simp
next
  case None
  with assms obtain j where j: "find (\<lambda>j. job_Name j = target) declared = Some j"
    and xs': "xs' = insert_at (clamp_pos a xs) j xs" and found: "found = int (clamp_pos a xs)"
    by (auto simp: resolveJobIndexExec_def Let_def split: option.splits)
  from j have "job_Name j = target"
    by (auto simp: find_Some_iff)
  with xs' found show ?thesis
    by (simp add: length_insert_at insert_at_nth clamp_pos_le less_Suc_eq_le)
qed

lemma insertResumeJob_keeps_front:
  assumes "i < length xs"
  shows "take (Suc i) (insertResumeJob xs (int i) jb r now) = take (Suc i) xs"
  using assms by (simp add: insertResumeJob_def Let_def clamp_pos_in_range take_insert_at)

lemma insertResumeJob_nth_found:
  assumes "i < length xs"
  shows "i < length (insertResumeJob xs (int i) jb r now) \<and>
         insertResumeJob xs (int i) jb r now ! i = xs ! i"
  using assms
  by (simp add: insertResumeJob_def Let_def clamp_pos_in_range insert_at_nth_before length_insert_at)

lemma subseq_insert_at: "subseq xs (insert_at pos j xs)"
proof -
  have "subseq (take pos xs @ [] @ drop pos xs) (take pos xs @ [j] @ drop pos xs)"
    by (intro list_emb_append_mono subseq_order.order_refl) simp
  then show ?thesis
    by (simp add: insert_at_def)
qed

lemma subseq_resolveJobIndexExec:
  "resolveJobIndexExec xs declared target a = (xs', found, ok) \<Longrightarrow> subseq xs xs'"
  by (auto simp: resolveJobIndexExec_def Let_def subseq_insert_at split: option.splits)

lemma subseq_insertResumeJob: "subseq xs (insertResumeJob xs a jb r now)"
  by (simp add: insertResumeJob_def Let_def subseq_insert_at)

lemma resolveJobIndexExec_ok:
  "resolveJobIndexExec xs declared target a = (xs', found, ok) \<Longrightarrow>
     ok \<longleftrightarrow> target \<in> job_Name ` set xs \<or> target \<in> job_Name ` set declared"
proof (cases "job_index xs target")
  case None
  assume r: "resolveJobIndexExec xs declared target a = (xs', found, ok)"
  from None have nx: "target \<notin> job_Name ` set xs"
    by (simp add: job_index_None)
  show ?thesis
  proof (cases "find (\<lambda>j. job_Name j = target) declared")
    case None
    then have "target \<notin> job_Name ` set declared"
      by (auto simp: find_None_iff)
    with r None \<open>job_index xs target = None\<close> nx show ?thesis
      by (simp add: resolveJobIndexExec_def)
  next
    case (Some j)
    then have "target \<in> job_Name ` set declared"
      by (auto simp: find_Some_iff)
    with r Some \<open>job_index xs target = None\<close> show ?thesis
      by (auto simp: resolveJobIndexExec_def Let_def)
  qed
next
  case (Some i)
  assume r: "resolveJobIndexExec xs declared target a = (xs', found, ok)"
  from Some have "target \<in> job_Name ` set xs"
    using job_index_None[of xs target] by auto
  with r Some show ?thesis
    by (simp add: resolveJobIndexExec_def)
qed

subsection \<open>Writing the working job list\<close>

lemma execJobs_set_execJobs [simp]: "execJobs (set_execJobs h xs st) = xs"
  by (simp add: set_execJobs_def)

lemma set_execJobs_other [simp]:
  "vars (set_execJobs h xs st) = vars st"
  "executed (set_execJobs h xs st) = executed st"
  "ji (set_execJobs h xs st) = ji st"
  "si (set_execJobs h xs st) = si st"
  "clock_reads (set_execJobs h xs st) = clock_reads st"
  by (simp_all add: set_execJobs_def)

lemma set_execJobs_same [simp]: "set_execJobs h (execJobs st) st = st"
  by (simp add: set_execJobs_def)

subsection \<open>The action \<^verbatim>\<open>goto_job\<close>\<close>

lemma apply_action_goto_job:
  assumes "target \<noteq> []"
    and "resolveJobIndexExec (execJobs st) (allJobs st) target (ji st) = (xs, found, ok)"
  shows "apply_action h sidx ''goto_job'' ts target st =
           (if \<not> ok then Return 6
            else
              let st1 = (set_execJobs h xs st)\<lparr>ji := found - 1\<rparr>;
                  st2 = (set_execJobs h
                           (insertResumeJob (execJobs st1) found (job st1) (si st1)
                              (UnixNano h (clock_reads st1))) st1)
                        \<lparr>clock_reads :=
                           (if si st1 + 1 \<ge> int (length (Steps (job st1))) then clock_reads st1
                            else Suc (clock_reads st1))\<rparr>
              in Next (st2\<lparr>si := int (length (Steps (job st2)))\<rparr>))"
  using assms by (simp add: apply_action_def)

text \<open>
  The parts of the lookup that hold in every state: a \<^verbatim>\<open>goto_job\<close> ends the run with 6
  exactly when its target is empty or names no job of the working list and no declared
  job; a target that is in the working list is found at its first position there, the
  lookup inserts nothing, and the job cursor is left one before that position.
\<close>

lemma goto_job_abort_iff:
  "apply_action h sidx ''goto_job'' ts target st = Return 6 \<longleftrightarrow>
     target = [] \<or>
     (target \<notin> job_Name ` set (execJobs st) \<and> target \<notin> job_Name ` set (allJobs st))"
proof (cases "target = []")
  case True
  then show ?thesis by (simp add: apply_action_def)
next
  case False
  obtain xs found ok where
    r: "resolveJobIndexExec (execJobs st) (allJobs st) target (ji st) = (xs, found, ok)"
    by (cases "resolveJobIndexExec (execJobs st) (allJobs st) target (ji st)")
  from resolveJobIndexExec_ok[OF r] False show ?thesis
    by (simp add: apply_action_goto_job[OF False r] Let_def)
qed

lemma goto_job_in_working_list:
  assumes "target \<noteq> []" and "job_index (execJobs st) target = Some i"
  shows "\<exists>st'. apply_action h sidx ''goto_job'' ts target st = Next st' \<and> ji st' = int i - 1 \<and>
           execJobs st' =
             insertResumeJob (execJobs st) (int i) (job st) (si st) (UnixNano h (clock_reads st))"
proof -
  have r: "resolveJobIndexExec (execJobs st) (allJobs st) target (ji st) = (execJobs st, int i, True)"
    using assms(2) by (simp add: resolveJobIndexExec_def)
  show ?thesis
    by (simp add: apply_action_goto_job[OF assms(1) r] Let_def)
qed

text \<open>
  A target that is declared and not in the working list: the first declared job of that
  name goes into the working list behind the job cursor as it stands at the lookup, at
  position \<open>ji + 1\<close> brought into the range of the list, and the job cursor is left one
  before it.
\<close>

lemma goto_job_declared_only:
  assumes "target \<noteq> []" and "job_index (execJobs st) target = None"
    and "find (\<lambda>j. job_Name j = target) (allJobs st) = Some j"
  shows "\<exists>st'. apply_action h sidx ''goto_job'' ts target st = Next st' \<and>
           ji st' = int (clamp_pos (ji st) (execJobs st)) - 1 \<and>
           execJobs st' =
             insertResumeJob (insert_at (clamp_pos (ji st) (execJobs st)) j (execJobs st))
               (int (clamp_pos (ji st) (execJobs st)))
               (job (set_execJobs h (insert_at (clamp_pos (ji st) (execJobs st)) j (execJobs st)) st))
               (si st) (UnixNano h (clock_reads st))"
proof -
  have r: "resolveJobIndexExec (execJobs st) (allJobs st) target (ji st) =
             (insert_at (clamp_pos (ji st) (execJobs st)) j (execJobs st),
              int (clamp_pos (ji st) (execJobs st)), True)"
    using assms(2,3) by (simp add: resolveJobIndexExec_def Let_def)
  show ?thesis
    by (simp add: apply_action_goto_job[OF assms(1) r] Let_def)
qed

text \<open>
  No action takes a job out of the working list: the list after a decision holds the
  jobs it held before, in their order, and the jobs inserted between them. The job loop
  has no other write to the list, so a resume job stays in it after it has run.
\<close>

lemma apply_action_keeps_jobs:
  assumes "apply_action h sidx action ts tj st = Next st'"
  shows "subseq (execJobs st) (execJobs st')"
proof (cases "action = ''goto_job''")
  case False
  with assms show ?thesis
    by (auto simp: apply_action_def split: if_splits option.splits)
next
  case True
  with assms have ne: "tj \<noteq> []"
    by (auto simp: apply_action_def)
  obtain xs found ok where
    r: "resolveJobIndexExec (execJobs st) (allJobs st) tj (ji st) = (xs, found, ok)"
    by (cases "resolveJobIndexExec (execJobs st) (allJobs st) tj (ji st)")
  from assms True obtain jb r' now where "execJobs st' = insertResumeJob xs found jb r' now"
    by (auto simp: apply_action_goto_job[OF ne r] Let_def split: if_splits)
  with subseq_resolveJobIndexExec[OF r] subseq_insertResumeJob[of xs found jb r' now]
  show ?thesis
    by (auto intro: subseq_order.trans)
qed

subsection \<open>The when-rules\<close>

lemma and_then_Return [simp]: "and_then (Return rc) f = Return rc"
  by (simp add: and_then_def)

lemma and_then_Next [simp]: "and_then (Next x) f = f x"
  by (simp add: and_then_def)

lemma when_match_eq:
  "when_match h vs outStr lastExitCode w =
     (if contains_test vs outStr w \<or> equals_test vs outStr w then Next True
      else if regex_malformed h vs w then Return 6
      else Next (regex_test h vs outStr w \<or> exit_code_test lastExitCode w))"
  by (auto simp: when_match_def contains_test_def equals_test_def regex_malformed_def
      regex_test_def exit_code_test_def Let_def split: option.splits)

lemma eval_when_first_match:
  assumes "list_all (\<lambda>w'. when_match h (vars st) outStr lastExitCode w' = Next False) pre"
    and "when_match h (vars st) outStr lastExitCode w = Next True"
  shows "eval_when h sidx outStr lastExitCode (pre @ w # post) st =
           and_then (apply_action h sidx (when_Action w) (when_Step w) (when_Job w) st)
             (\<lambda>st'. Next (True, st'))"
  using assms by (induction pre) simp_all

text \<open>
  Claim C9. The operators of a when-rule are tested in the order containment, trimmed
  equality, regular expression, exit code: a rule that matches by containment or by
  equality matches without its regular expression being compiled; otherwise a regular
  expression that does not compile ends the run with 6 before the exit code is looked
  at; otherwise the rule matches exactly when the regular expression or the exit code
  does. So whenever the evaluation of a rule gives a verdict, the verdict is that some
  present operator's test succeeds. Among the when-rules of a step, the first that
  matches has its action applied and ends the stage: the rules after it (\<open>post\<close>)
  have no part in the result.
\<close>

theorem when_rule_priority_and_first_match:
  "when_match h vs outStr lastExitCode w =
     (if contains_test vs outStr w \<or> equals_test vs outStr w then Next True
      else if regex_malformed h vs w then Return 6
      else Next (regex_test h vs outStr w \<or> exit_code_test lastExitCode w)) \<and>
   (\<forall>b. when_match h vs outStr lastExitCode w = Next b \<longrightarrow>
      b = (contains_test vs outStr w \<or> equals_test vs outStr w \<or>
           regex_test h vs outStr w \<or> exit_code_test lastExitCode w)) \<and>
   (\<forall>pre post st.
      list_all (\<lambda>w'. when_match h (vars st) outStr lastExitCode w' = Next False) pre \<and>
      when_match h (vars st) outStr lastExitCode w = Next True \<longrightarrow>
      eval_when h sidx outStr lastExitCode (pre @ w # post) st =
        and_then (apply_action h sidx (when_Action w) (when_Step w) (when_Job w) st)
          (\<lambda>st'. Next (True, st')))"
proof (intro conjI allI impI)
  show "when_match h vs outStr lastExitCode w =
     (if contains_test vs outStr w \<or> equals_test vs outStr w then Next True
      else if regex_malformed h vs w then Return 6
      else Next (regex_test h vs outStr w \<or> exit_code_test lastExitCode w))"
    by (rule when_match_eq)
next
  fix b
  assume "when_match h vs outStr lastExitCode w = Next b"
  then show "b = (contains_test vs outStr w \<or> equals_test vs outStr w \<or>
           regex_test h vs outStr w \<or> exit_code_test lastExitCode w)"
    by (auto simp: when_match_eq split: if_splits)
next
  fix pre post and st :: run_state
  assume "list_all (\<lambda>w'. when_match h (vars st) outStr lastExitCode w' = Next False) pre \<and>
      when_match h (vars st) outStr lastExitCode w = Next True"
  then show "eval_when h sidx outStr lastExitCode (pre @ w # post) st =
        and_then (apply_action h sidx (when_Action w) (when_Step w) (when_Job w) st)
          (\<lambda>st'. Next (True, st'))"
    by (simp add: eval_when_first_match)
qed

theorem when_rule_priority_and_first_match_witness:
  "contains_test [] (''hello world'' @ [CHR 0x0A]) when_hello \<and>
   regex_malformed demo_host [] when_hello \<and>
   when_match demo_host [] (''hello world'' @ [CHR 0x0A]) 0 when_hello = Next True \<and>
   \<not> contains_test [] (''hello world'' @ [CHR 0x0A]) when_bad_regex \<and>
   \<not> equals_test [] (''hello world'' @ [CHR 0x0A]) when_bad_regex \<and>
   regex_malformed demo_host [] when_bad_regex \<and>
   exit_code_test 0 when_bad_regex \<and>
   when_match demo_host [] (''hello world'' @ [CHR 0x0A]) 0 when_bad_regex = Return 6 \<and>
   list_all (\<lambda>w'. when_match demo_host (vars (entry_state demo_host [job_build] [job_build] 0))
                     (''hello world'' @ [CHR 0x0A]) 0 w' = Next False) [when_nope] \<and>
   eval_when demo_host (stepIndex (Steps job_build))
     (''hello world'' @ [CHR 0x0A]) 0 ([when_nope] @ when_hello # [when_bad_regex])
     (entry_state demo_host [job_build] [job_build] 0) = Next (True, (entry_state demo_host [job_build] [job_build] 0)\<lparr>si := 0\<rparr>)"
proof -
  let ?out = "''hello world'' @ [CHR 0x0A]"
  let ?st = "entry_state demo_host [job_build] [job_build] 0"
  have vs: "vars ?st = []"
    by (simp add: entry_state_def)
  have hello: "contains_test [] ?out when_hello" "regex_malformed demo_host [] when_hello"
    by code_simp+
  have bad: "\<not> contains_test [] ?out when_bad_regex" "\<not> equals_test [] ?out when_bad_regex"
    "regex_malformed demo_host [] when_bad_regex" "exit_code_test 0 when_bad_regex"
    by code_simp+
  have nope: "\<not> contains_test [] ?out when_nope" "\<not> equals_test [] ?out when_nope"
    "\<not> regex_malformed demo_host [] when_nope" "\<not> regex_test demo_host [] ?out when_nope"
    "\<not> exit_code_test 0 when_nope"
    by code_simp+
  note rule = when_rule_priority_and_first_match[where h = demo_host and outStr = ?out
      and lastExitCode = 0
      and sidx = "stepIndex (Steps job_build)"]
  from rule[where vs = "[]" and w = when_hello] hello
  have m1: "when_match demo_host [] ?out 0 when_hello = Next True"
    by simp
  from rule[where vs = "[]" and w = when_bad_regex] bad
  have m2: "when_match demo_host [] ?out 0 when_bad_regex = Return 6"
    by simp
  from rule[where vs = "[]" and w = when_nope] nope
  have m3: "when_match demo_host [] ?out 0 when_nope = Next False"
    by simp
  have pre: "list_all (\<lambda>w'. when_match demo_host (vars ?st) ?out 0 w' = Next False) [when_nope]"
    using m3 by (simp add: vs)
  from rule[where vs = "[]" and w = when_hello] pre m1
  have "eval_when demo_host (stepIndex (Steps job_build)) ?out 0
          ([when_nope] @ when_hello # [when_bad_regex]) ?st =
        and_then (apply_action demo_host (stepIndex (Steps job_build))
                    (when_Action when_hello) (when_Step when_hello) (when_Job when_hello) ?st)
          (\<lambda>st'. Next (True, st'))"
    by (simp add: vs)
  moreover have "apply_action demo_host (stepIndex (Steps job_build))
                    (when_Action when_hello) (when_Step when_hello) (when_Job when_hello) ?st
                 = Next (?st\<lparr>si := 0\<rparr>)"
    by (simp add: apply_action_def when_hello_def no_when_def stepIndex_def job_build_def
        command_step_def)
  ultimately have first: "eval_when demo_host (stepIndex (Steps job_build))
      ?out 0 ([when_nope] @ when_hello # [when_bad_regex]) ?st = Next (True, ?st\<lparr>si := 0\<rparr>)"
    by simp
  from hello m1 bad m2 pre first show ?thesis
    by blast
qed

subsection \<open>The exit codes of the rule stages\<close>

lemma apply_action_codes:
  "apply_action h sidx action ts tj st = Return rc \<Longrightarrow> rc = 0 \<or> rc = 6 \<or> rc = 7"
  by (auto simp: apply_action_def Let_def split: if_splits option.splits prod.splits)

lemma apply_action_vars:
  "apply_action h sidx action ts tj st = Next st' \<Longrightarrow>
     vars st' = vars st \<and> executed st' = executed st"
  by (auto simp: apply_action_def Let_def split: if_splits option.splits prod.splits)

lemma eval_conditions_codes:
  "eval_conditions h sidx outStr conds m st = Return rc \<Longrightarrow> rc = 0 \<or> rc = 6 \<or> rc = 7"
proof (induction conds arbitrary: m st)
  case Nil
  then show ?case by simp
next
  case (Cons c conds)
  show ?case
  proof (cases "regexp_Compile h (interpolate (Pattern c) (vars st))")
    case None
    with Cons.prems show ?thesis by simp
  next
    case (Some re)
    show ?thesis
    proof (cases "re outStr")
      case False
      with Some Cons.prems Cons.IH show ?thesis by simp
    next
      case True
      show ?thesis
      proof (cases "apply_action h sidx (cond_Action c) (cond_Step c) (cond_Job c) st")
        case (Return r)
        with Some True Cons.prems have "rc = r" by simp
        with apply_action_codes[OF Return] show ?thesis by simp
      next
        case (Next st')
        with Some True Cons.prems Cons.IH show ?thesis by simp
      qed
    qed
  qed
qed

lemma eval_conditions_vars:
  "eval_conditions h sidx outStr conds m st = Next (m', st') \<Longrightarrow>
     vars st' = vars st \<and> executed st' = executed st"
proof (induction conds arbitrary: m st)
  case Nil
  then show ?case by simp
next
  case (Cons c conds)
  show ?case
  proof (cases "regexp_Compile h (interpolate (Pattern c) (vars st))")
    case None
    with Cons.prems show ?thesis by simp
  next
    case (Some re)
    show ?thesis
    proof (cases "re outStr")
      case False
      with Some Cons.prems Cons.IH show ?thesis by simp
    next
      case True
      show ?thesis
      proof (cases "apply_action h sidx (cond_Action c) (cond_Step c) (cond_Job c) st")
        case (Return r)
        with Some True Cons.prems show ?thesis by simp
      next
        case (Next st1)
        with Some True Cons.prems have "eval_conditions h sidx outStr conds True st1 = Next (m', st')"
          by simp
        from Cons.IH[OF this] apply_action_vars[OF Next] show ?thesis by simp
      qed
    qed
  qed
qed

lemma when_match_codes:
  "when_match h vs outStr code w = Return rc \<Longrightarrow> rc = 6"
  by (simp add: when_match_eq split: if_splits)

lemma eval_when_codes:
  "eval_when h sidx outStr code ws st = Return rc \<Longrightarrow> rc = 0 \<or> rc = 6 \<or> rc = 7"
proof (induction ws)
  case Nil
  then show ?case by simp
next
  case (Cons w ws)
  show ?case
  proof (cases "when_match h (vars st) outStr code w")
    case (Return r)
    with Cons.prems when_match_codes[OF Return] show ?thesis by simp
  next
    case (Next b)
    show ?thesis
    proof (cases b)
      case False
      with Next Cons show ?thesis by simp
    next
      case True
      with Next Cons.prems
      have "and_then (apply_action h sidx (when_Action w) (when_Step w) (when_Job w) st)
              (\<lambda>st'. Next (True, st')) = Return rc"
        by simp
      then have "apply_action h sidx (when_Action w) (when_Step w) (when_Job w) st = Return rc"
        by (simp add: and_then_def split: outcome.splits)
      then show ?thesis by (rule apply_action_codes)
    qed
  qed
qed

lemma eval_when_vars:
  "eval_when h sidx outStr code ws st = Next (m', st') \<Longrightarrow>
     vars st' = vars st \<and> executed st' = executed st"
proof (induction ws)
  case Nil
  then show ?case by simp
next
  case (Cons w ws)
  show ?case
  proof (cases "when_match h (vars st) outStr code w")
    case (Return r)
    with Cons.prems show ?thesis by simp
  next
    case (Next b)
    show ?thesis
    proof (cases b)
      case False
      with Next Cons show ?thesis by simp
    next
      case True
      with Next Cons.prems
      have "and_then (apply_action h sidx (when_Action w) (when_Step w) (when_Job w) st)
              (\<lambda>st'. Next (True, st')) = Next (m', st')"
        by simp
      then have "apply_action h sidx (when_Action w) (when_Step w) (when_Job w) st = Next st'"
        by (simp add: and_then_def split: outcome.splits)
      then show ?thesis by (rule apply_action_vars)
    qed
  qed
qed

subsection \<open>A step after its commands\<close>

lemma evaluate_step_eq:
  "evaluate_step h sidx step outStr code err st =
     and_then
       (eval_conditions h sidx outStr (Conditions step) False
          (if SaveOutput step \<noteq> []
           then st\<lparr>vars := set_var (SaveOutput step) (strings_TrimSpace outStr) (vars st)\<rparr>
           else st))
       (\<lambda>(m, st1).
          and_then (if \<not> m then eval_when h sidx outStr code (When step) st1 else Next (m, st1))
            (\<lambda>(m, st2).
               if \<not> m \<and> ElseAction step \<noteq> []
               then apply_action h sidx (ElseAction step) (ElseStep step) (ElseJob step) st2
               else Next st2))"
  by (auto simp: evaluate_step_def Let_def and_then_def split: outcome.splits prod.splits)

text \<open>
  The stages in their order: the legacy conditions; the when-rules when no legacy
  condition matched; the else-branch when neither matched. Nothing else decides.
\<close>

lemma evaluate_step_cases:
  fixes st :: run_state and step :: Step and outStr :: string
  defines "st0 \<equiv> (if SaveOutput step \<noteq> []
                    then st\<lparr>vars := set_var (SaveOutput step) (strings_TrimSpace outStr) (vars st)\<rparr>
                    else st)"
  obtains
    (legacy_return) rc where
      "eval_conditions h sidx outStr (Conditions step) False st0 = Return rc"
      "evaluate_step h sidx step outStr code err st = Return rc"
  | (legacy_matched) st1 where
      "eval_conditions h sidx outStr (Conditions step) False st0 = Next (True, st1)"
      "evaluate_step h sidx step outStr code err st = Next st1"
  | (when_return) st1 rc where
      "eval_conditions h sidx outStr (Conditions step) False st0 = Next (False, st1)"
      "eval_when h sidx outStr code (When step) st1 = Return rc"
      "evaluate_step h sidx step outStr code err st = Return rc"
  | (when_matched) st1 st2 where
      "eval_conditions h sidx outStr (Conditions step) False st0 = Next (False, st1)"
      "eval_when h sidx outStr code (When step) st1 = Next (True, st2)"
      "evaluate_step h sidx step outStr code err st = Next st2"
  | (else_branch) st1 st2 where
      "eval_conditions h sidx outStr (Conditions step) False st0 = Next (False, st1)"
      "eval_when h sidx outStr code (When step) st1 = Next (False, st2)"
      "evaluate_step h sidx step outStr code err st =
         (if ElseAction step \<noteq> []
          then apply_action h sidx (ElseAction step) (ElseStep step) (ElseJob step) st2
          else Next st2)"
proof (cases "eval_conditions h sidx outStr (Conditions step) False st0")
  case (Return rc)
  then have "evaluate_step h sidx step outStr code err st = Return rc"
    by (simp add: evaluate_step_eq st0_def)
  with Return show ?thesis by (rule legacy_return)
next
  case (Next p)
  obtain m st1 where p: "p = (m, st1)" by (cases p)
  show ?thesis
  proof (cases m)
    case True
    with Next p have "evaluate_step h sidx step outStr code err st = Next st1"
      by (simp add: evaluate_step_eq st0_def)
    with Next p True show ?thesis by (auto intro: legacy_matched)
  next
    case False
    with Next p
    have legacy: "eval_conditions h sidx outStr (Conditions step) False st0 = Next (False, st1)"
      by simp
    show ?thesis
    proof (cases "eval_when h sidx outStr code (When step) st1")
      case (Return rc)
      with legacy have "evaluate_step h sidx step outStr code err st = Return rc"
        by (simp add: evaluate_step_eq st0_def)
      with legacy Return show ?thesis by (rule when_return)
    next
      case (Next q)
      obtain m2 st2 where q: "q = (m2, st2)" by (cases q)
      show ?thesis
      proof (cases m2)
        case True
        with legacy Next q have "evaluate_step h sidx step outStr code err st = Next st2"
          by (simp add: evaluate_step_eq st0_def)
        with legacy Next q True show ?thesis by (auto intro: when_matched)
      next
        case False
        with legacy Next q have "evaluate_step h sidx step outStr code err st =
          (if ElseAction step \<noteq> []
           then apply_action h sidx (ElseAction step) (ElseStep step) (ElseJob step) st2
           else Next st2)"
          by (simp add: evaluate_step_eq st0_def)
        with legacy Next q False show ?thesis by (auto intro: else_branch)
      qed
    qed
  qed
qed

lemma evaluate_step_codes:
  assumes "evaluate_step h sidx step outStr code err st = Return rc"
  shows "rc = 0 \<or> rc = 6 \<or> rc = 7"
proof (cases rule: evaluate_step_cases[of h sidx outStr step st code err])
  case (legacy_return r)
  with assms eval_conditions_codes[OF legacy_return(1)] show ?thesis by simp
next
  case (legacy_matched st1)
  with assms show ?thesis by simp
next
  case (when_return st1 r)
  with assms eval_when_codes[OF when_return(2)] show ?thesis by simp
next
  case (when_matched st1 st2)
  with assms show ?thesis by simp
next
  case (else_branch st1 st2)
  with assms have "apply_action h sidx (ElseAction step) (ElseStep step) (ElseJob step) st2 = Return rc"
    by (simp split: if_splits)
  then show ?thesis by (rule apply_action_codes)
qed

lemma evaluate_step_never_5:
  "evaluate_step h sidx step outStr code err st \<noteq> Return 5"
  using evaluate_step_codes[of h sidx step outStr code err st 5] by auto

lemma on_timeout_has_no_effect:
  "evaluate_step h sidx
     (step\<lparr>OnTimeout := a, OnTimeoutStep := ts, OnTimeoutJob := tj\<rparr>) outStr code err st =
   evaluate_step h sidx step outStr code err st"
  by (simp add: evaluate_step_eq cong: if_cong)

lemma evaluate_step_vars:
  assumes "evaluate_step h sidx step outStr code err st = Next st'"
  shows "vars st' = (if SaveOutput step \<noteq> []
                     then set_var (SaveOutput step) (strings_TrimSpace outStr) (vars st)
                     else vars st)"
proof (cases rule: evaluate_step_cases[of h sidx outStr step st code err])
  case (legacy_return r)
  with assms show ?thesis by simp
next
  case (legacy_matched st1)
  with assms eval_conditions_vars[OF legacy_matched(1)] show ?thesis by simp
next
  case (when_return st1 r)
  with assms show ?thesis by simp
next
  case (when_matched st1 st2)
  with assms eval_conditions_vars[OF when_matched(1)] eval_when_vars[OF when_matched(2)]
  show ?thesis by simp
next
  case (else_branch st1 st2)
  have "vars st' = vars st2"
  proof (cases "ElseAction step \<noteq> []")
    case True
    with else_branch(3) assms
    have "apply_action h sidx (ElseAction step) (ElseStep step) (ElseJob step) st2 = Next st'"
      by simp
    from apply_action_vars[OF this] show ?thesis by simp
  next
    case False
    with else_branch(3) assms show ?thesis by simp
  qed
  with eval_conditions_vars[OF else_branch(1)] eval_when_vars[OF else_branch(2)]
  show ?thesis by simp
qed

text \<open>
  No stage of the rules, and no step, takes a job out of the working list.
\<close>

lemma eval_conditions_keeps_jobs:
  "eval_conditions h sidx outStr conds m st = Next (m', st') \<Longrightarrow> subseq (execJobs st) (execJobs st')"
proof (induction conds arbitrary: m st)
  case Nil
  then show ?case by simp
next
  case (Cons c conds)
  show ?case
  proof (cases "regexp_Compile h (interpolate (Pattern c) (vars st))")
    case None
    with Cons.prems show ?thesis by simp
  next
    case (Some re)
    show ?thesis
    proof (cases "re outStr")
      case False
      with Some Cons.prems Cons.IH show ?thesis by simp
    next
      case True
      show ?thesis
      proof (cases "apply_action h sidx (cond_Action c) (cond_Step c) (cond_Job c) st")
        case (Return r)
        with Some True Cons.prems show ?thesis by simp
      next
        case (Next st1)
        with Some True Cons.prems have "eval_conditions h sidx outStr conds True st1 = Next (m', st')"
          by simp
        from Cons.IH[OF this] apply_action_keeps_jobs[OF Next] show ?thesis
          by (rule subseq_order.trans[rotated])
      qed
    qed
  qed
qed

lemma eval_when_keeps_jobs:
  "eval_when h sidx outStr code ws st = Next (m', st') \<Longrightarrow> subseq (execJobs st) (execJobs st')"
proof (induction ws)
  case Nil
  then show ?case by simp
next
  case (Cons w ws)
  show ?case
  proof (cases "when_match h (vars st) outStr code w")
    case (Return r)
    with Cons.prems show ?thesis by simp
  next
    case (Next b)
    show ?thesis
    proof (cases b)
      case False
      with Next Cons show ?thesis by simp
    next
      case True
      with Next Cons.prems
      have "and_then (apply_action h sidx (when_Action w) (when_Step w) (when_Job w) st)
              (\<lambda>st'. Next (True, st')) = Next (m', st')"
        by simp
      then have "apply_action h sidx (when_Action w) (when_Step w) (when_Job w) st = Next st'"
        by (simp add: and_then_def split: outcome.splits)
      then show ?thesis by (rule apply_action_keeps_jobs)
    qed
  qed
qed

lemma evaluate_step_keeps_jobs:
  assumes "evaluate_step h sidx step outStr code err st = Next st'"
  shows "subseq (execJobs st) (execJobs st')"
proof (cases rule: evaluate_step_cases[of h sidx outStr step st code err])
  case (legacy_return r)
  with assms show ?thesis by simp
next
  case (legacy_matched st1)
  with assms eval_conditions_keeps_jobs[OF legacy_matched(1)] show ?thesis
    by (simp split: if_splits)
next
  case (when_return st1 r)
  with assms show ?thesis by simp
next
  case (when_matched st1 st2)
  with assms eval_conditions_keeps_jobs[OF when_matched(1)] eval_when_keeps_jobs[OF when_matched(2)]
  show ?thesis by (auto split: if_splits intro: subseq_order.trans)
next
  case (else_branch st1 st2)
  have "subseq (execJobs st2) (execJobs st')"
  proof (cases "ElseAction step \<noteq> []")
    case True
    with else_branch(3) assms
    have "apply_action h sidx (ElseAction step) (ElseStep step) (ElseJob step) st2 = Next st'"
      by simp
    then show ?thesis by (rule apply_action_keeps_jobs)
  next
    case False
    with else_branch(3) assms show ?thesis by simp
  qed
  with eval_conditions_keeps_jobs[OF else_branch(1)] eval_when_keeps_jobs[OF else_branch(2)]
  show ?thesis by (auto split: if_splits intro: subseq_order.trans)
qed

lemma run_cmds_execJobs:
  "run_cmds h t it cs (out, code, err, st) = (out', code', err', st') \<Longrightarrow> execJobs st' = execJobs st"
proof (induction cs arbitrary: out code err st)
  case Nil
  then show ?case by simp
next
  case (Cons c cs)
  obtain e b w where r: "command_result h (length (executed st)) (interpolate c (vars st)) t it = (e, b, w)"
    by (cases "command_result h (length (executed st)) (interpolate c (vars st)) t it")
  with Cons.prems have "run_cmds h t it cs (out @ w, e, err \<or> b, st\<lparr>executed := executed st @ [interpolate c (vars st)]\<rparr>)
      = (out', code', err', st')"
    by (simp add: Let_def)
  from Cons.IH[OF this] show ?case by simp
qed

lemma run_step_keeps_jobs:
  assumes "run_step h d sidx st = Continue st'"
  shows "subseq (execJobs st) (execJobs st')"
proof -
  from assms obtain t it out code err st1 where
    c: "run_cmds h t it (step_commands (Steps (job st) ! nat (si st))) ([], 0, False, st) = (out, code, err, st1)"
    and e: "evaluate_step h sidx (Steps (job st) ! nat (si st)) out code err st1 = Next st'"
    by (auto simp: run_step_def Let_def split: if_splits outcome.splits prod.splits)
  from run_cmds_execJobs[OF c] evaluate_step_keeps_jobs[OF e] show ?thesis
    by simp
qed

subsection \<open>The variable environment and trimmed strings\<close>

lemma set_var_twice: "set_var k v (set_var k v' vs) = set_var k v vs"
  by (induction vs) auto

lemma map_of_set_var: "map_of (set_var k v vs) k = Some v"
  by (induction vs) auto

lemma map_of_set_var_other: "k' \<noteq> k \<Longrightarrow> map_of (set_var k v vs) k' = map_of vs k'"
  by (induction vs) auto

lemma space_runes_nonempty: "r \<in> set space_runes \<Longrightarrow> r \<noteq> []"
  by (auto simp: space_runes_def)

lemma find_Some_in_set: "find P xs = Some x \<Longrightarrow> x \<in> set xs \<and> P x"
  by (induction xs) (auto split: if_splits)

lemma leading_space_0: "leading_space s = 0 \<longleftrightarrow> (\<forall>r\<in>set space_runes. \<not> prefix r s)"
proof (cases "find (\<lambda>r. prefix r s) space_runes")
  case None
  then have "\<forall>r\<in>set space_runes. \<not> prefix r s"
    by (simp add: find_None_iff)
  with None show ?thesis
    by (simp add: leading_space_def)
next
  case (Some r)
  from find_Some_in_set[OF Some] have "r \<in> set space_runes" "prefix r s"
    by simp_all
  moreover from this have "r \<noteq> []"
    by (simp add: space_runes_nonempty)
  ultimately show ?thesis
    using Some by (auto simp: leading_space_def)
qed

lemma trailing_space_0: "trailing_space s = 0 \<longleftrightarrow> (\<forall>r\<in>set space_runes. \<not> suffix r s)"
proof (cases "find (\<lambda>r. suffix r s) space_runes")
  case None
  then have "\<forall>r\<in>set space_runes. \<not> suffix r s"
    by (simp add: find_None_iff)
  with None show ?thesis
    by (simp add: trailing_space_def)
next
  case (Some r)
  from find_Some_in_set[OF Some] have "r \<in> set space_runes" "suffix r s"
    by simp_all
  moreover from this have "r \<noteq> []"
    by (simp add: space_runes_nonempty)
  ultimately show ?thesis
    using Some by (auto simp: trailing_space_def)
qed

lemma leading_space_TrimLeft: "leading_space (TrimLeft s) = 0"
proof (induction s rule: TrimLeft.induct)
  case (1 s)
  show ?case
  proof (cases "leading_space s = 0 \<or> s = []")
    case True
    then have "TrimLeft s = s" by (subst TrimLeft.simps) simp
    moreover have "leading_space [] = 0"
      by (auto simp: leading_space_0 dest: space_runes_nonempty)
    ultimately show ?thesis using True by auto
  next
    case False
    then have "TrimLeft s = TrimLeft (drop (leading_space s) s)"
      by (subst TrimLeft.simps) simp
    with 1 False show ?thesis by simp
  qed
qed

lemma TrimRight_prefix: "prefix (TrimRight s) s"
proof (induction s rule: TrimRight.induct)
  case (1 s)
  show ?case
  proof (cases "trailing_space s = 0 \<or> s = []")
    case True
    then have "TrimRight s = s" by (subst TrimRight.simps) simp
    then show ?thesis by simp
  next
    case False
    then have unfold: "TrimRight s = TrimRight (take (length s - trailing_space s) s)"
      by (subst TrimRight.simps) simp
    from 1 False have "prefix (TrimRight (take (length s - trailing_space s) s)) (take (length s - trailing_space s) s)"
      by simp
    moreover have "prefix (take (length s - trailing_space s) s) s"
      by (rule take_is_prefix)
    ultimately have "prefix (TrimRight (take (length s - trailing_space s) s)) s"
      by (rule prefix_order.trans)
    with unfold show ?thesis by simp
  qed
qed

lemma trailing_space_TrimRight: "trailing_space (TrimRight s) = 0"
proof (induction s rule: TrimRight.induct)
  case (1 s)
  show ?case
  proof (cases "trailing_space s = 0 \<or> s = []")
    case True
    then have "TrimRight s = s" by (subst TrimRight.simps) simp
    moreover have "trailing_space [] = 0"
      by (auto simp: trailing_space_0 dest: space_runes_nonempty)
    ultimately show ?thesis using True by auto
  next
    case False
    then have "TrimRight s = TrimRight (take (length s - trailing_space s) s)"
      by (subst TrimRight.simps) simp
    with 1 False show ?thesis by simp
  qed
qed

lemma TrimSpace_trimmed:
  "leading_space (strings_TrimSpace s) = 0 \<and> trailing_space (strings_TrimSpace s) = 0"
proof
  have "\<forall>r\<in>set space_runes. \<not> prefix r (TrimLeft s)"
    using leading_space_TrimLeft[of s] by (simp add: leading_space_0)
  moreover have "prefix (TrimRight (TrimLeft s)) (TrimLeft s)"
    by (rule TrimRight_prefix)
  ultimately have "\<forall>r\<in>set space_runes. \<not> prefix r (TrimRight (TrimLeft s))"
    using prefix_order.trans by blast
  then show "leading_space (strings_TrimSpace s) = 0"
    by (simp add: strings_TrimSpace_def leading_space_0)
  show "trailing_space (strings_TrimSpace s) = 0"
    by (simp add: strings_TrimSpace_def trailing_space_TrimRight)
qed

text \<open>
  Claim C10. For a step with a non-empty \<^verbatim>\<open>save_output\<close> key, once its commands have
  run: the outcome of the rule stages does not depend on what the key held before
  (whatever value \<open>v\<close> it had, the rules see the new one), it is the outcome of the rules
  in the environment where the key already maps to the trimmed output, and when the
  step does not end the run the environment it leaves maps the key to
  \<^verbatim>\<open>strings.TrimSpace\<close> of the combined output, a string that neither starts nor ends
  with white space. \<open>outStr\<close> is the combined output that \<open>run_cmds\<close> collects.
\<close>

theorem save_output_written_before_rules:
  assumes "SaveOutput step \<noteq> []"
  shows
    "(\<forall>v. evaluate_step h sidx step outStr code err
            (st\<lparr>vars := set_var (SaveOutput step) v (vars st)\<rparr>) =
          evaluate_step h sidx step outStr code err st) \<and>
     evaluate_step h sidx step outStr code err st =
       evaluate_step h sidx (step\<lparr>SaveOutput := []\<rparr>) outStr code err
         (st\<lparr>vars := set_var (SaveOutput step) (strings_TrimSpace outStr) (vars st)\<rparr>) \<and>
     (\<forall>st'. evaluate_step h sidx step outStr code err st = Next st' \<longrightarrow>
        vars st' = set_var (SaveOutput step) (strings_TrimSpace outStr) (vars st) \<and>
        map_of (vars st') (SaveOutput step) = Some (strings_TrimSpace outStr)) \<and>
     leading_space (strings_TrimSpace outStr) = 0 \<and> trailing_space (strings_TrimSpace outStr) = 0"
proof (intro conjI allI impI)
  fix v
  show "evaluate_step h sidx step outStr code err
            (st\<lparr>vars := set_var (SaveOutput step) v (vars st)\<rparr>) =
          evaluate_step h sidx step outStr code err st"
    using assms by (simp add: evaluate_step_eq set_var_twice cong: if_cong)
next
  show "evaluate_step h sidx step outStr code err st =
       evaluate_step h sidx (step\<lparr>SaveOutput := []\<rparr>) outStr code err
         (st\<lparr>vars := set_var (SaveOutput step) (strings_TrimSpace outStr) (vars st)\<rparr>)"
    using assms by (simp add: evaluate_step_eq cong: if_cong)
next
  fix st'
  assume a: "evaluate_step h sidx step outStr code err st = Next st'"
  from evaluate_step_vars[OF a] assms
  show "vars st' = set_var (SaveOutput step) (strings_TrimSpace outStr) (vars st)"
    by simp
  then show "map_of (vars st') (SaveOutput step) = Some (strings_TrimSpace outStr)"
    by (simp add: map_of_set_var)
next
  show "leading_space (strings_TrimSpace outStr) = 0" "trailing_space (strings_TrimSpace outStr) = 0"
    using TrimSpace_trimmed by simp_all
qed

theorem save_output_written_before_rules_witness:
  "SaveOutput step_capture \<noteq> [] \<and>
   strings_TrimSpace (''alpha'' @ [CHR 0x0A]) = ''alpha'' \<and>
   evaluate_step demo_host (stepIndex (Steps job_capture)) step_capture
     (''alpha'' @ [CHR 0x0A]) 0 False ((entry_state demo_host [job_capture] [job_capture] 0)\<lparr>vars := [(''out1'', ''old'')]\<rparr>)
     = Next ((entry_state demo_host [job_capture] [job_capture] 0)\<lparr>vars := [(''out1'', ''alpha'')], si := 1\<rparr>) \<and>
   map_of (vars ((entry_state demo_host [job_capture] [job_capture] 0)\<lparr>vars := [(''out1'', ''alpha'')], si := 1\<rparr>))
     (SaveOutput step_capture) = Some (strings_TrimSpace (''alpha'' @ [CHR 0x0A])) \<and>
   run_pipeline 5 demo_host [] [] [job_capture] [(''out1'', ''old'')] =
     Exit 0 [''echo alpha'', ''echo GOT alpha'']"
proof -
  let ?out = "''alpha'' @ [CHR 0x0A]"
  let ?st = "(entry_state demo_host [job_capture] [job_capture] 0)\<lparr>vars := [(''out1'', ''old'')]\<rparr>"
  let ?st' = "(entry_state demo_host [job_capture] [job_capture] 0)\<lparr>vars := [(''out1'', ''alpha'')], si := 1\<rparr>"
  have key: "SaveOutput step_capture \<noteq> []"
    by (simp add: step_capture_def command_step_def)
  have trim: "strings_TrimSpace ?out = ''alpha''"
    by code_simp
  have ev: "evaluate_step demo_host (stepIndex (Steps job_capture))
      step_capture ?out 0 False ?st = Next ?st'"
    by code_simp
  from save_output_written_before_rules[OF key, where h = demo_host
      and sidx = "stepIndex (Steps job_capture)" and outStr = ?out
      and code = 0 and err = False and st = ?st] ev
  have written: "map_of (vars ?st') (SaveOutput step_capture) = Some (strings_TrimSpace ?out)"
    by blast
  have run: "run_pipeline 5 demo_host [] [] [job_capture] [(''out1'', ''old'')] =
     Exit 0 [''echo alpha'', ''echo GOT alpha'']"
    by code_simp
  from key trim ev written run show ?thesis
    by blast
qed

subsection \<open>Runs of the example pipelines\<close>

text \<open>
  Claim C1 says that a step whose last command failed and that no rule absorbed ends the
  run with 5. \<open>job_failing\<close> has one step, its command exits with 1 and an error, and
  the step has no rule at all: the run goes on to the end and returns 0. The assignment
  \<^verbatim>\<open>conditionMatched = true\<close> after the else-branch is unconditional, so the test
  \<^verbatim>\<open>!conditionMatched && errOccurred\<close> that guards \<^verbatim>\<open>return 5\<close> never holds
  (\<open>evaluate_step_never_5\<close>).
\<close>

theorem unmatched_failure_returns_success:
  "command_result demo_host 0 ''false'' 0 0 = (1, True, []) \<and>
   run_pipeline 3 demo_host [] [] [job_failing] [] = Exit 0 [''false'']"
  by code_simp

text \<open>
  Claim C2 says that the \<^verbatim>\<open>on_timeout\<close> action of a step is applied when its commands
  ran into the timeout and no other rule decided. The first step of \<open>job_timeout\<close> is
  killed by its timeout (exit code 124, with an error), has no other rule, and names
  \<^verbatim>\<open>goto_step recover\<close> in \<^verbatim>\<open>on_timeout\<close>: the run does not jump, the step
  \<^verbatim>\<open>mid\<close> between the two runs. The same unconditional assignment makes the
  \<^verbatim>\<open>on_timeout\<close> block unreachable (\<open>on_timeout_has_no_effect\<close>).
\<close>

theorem on_timeout_goto_step_not_applied:
  "command_result demo_host 0 ''sleep 10'' 2000000000 0 = (124, True, []) \<and>
   run_pipeline 5 demo_host [] [] [job_timeout] [] =
     Exit 0 [''sleep 10'', ''echo skipped'', ''echo recovered'']"
  by code_simp

text \<open>
  Claim C3 says that the first legacy condition that matches determines the action of
  the step and that no later legacy condition is applied. Both conditions of the first
  step of \<open>job_two_conditions\<close> match; the first says \<^verbatim>\<open>continue\<close>, the second
  \<^verbatim>\<open>fail\<close>: the run ends with 7 instead of going on to step \<^verbatim>\<open>s2\<close>. The loop over
  the legacy conditions has no \<^verbatim>\<open>break\<close>.
\<close>

theorem later_legacy_condition_applied:
  "run_pipeline 3 demo_host [] [] [job_two_conditions] [] = Exit 7 [''echo a'']"
  by code_simp

text \<open>
  The loop over the legacy conditions at the last step of a job. Both conditions of step
  \<^verbatim>\<open>s2\<close> of \<open>job_last\<close> match: \<^verbatim>\<open>goto_step s1\<close> moves the step cursor to one
  before the first step, and the \<^verbatim>\<open>goto_job\<close> that follows, for want of a
  \<^verbatim>\<open>break\<close>, takes the steps after the cursor for the steps left over: it inserts a
  resume job that holds every step of the job, although the deciding step is the last.
\<close>

lemma last_step_resume_job_after_goto_step:
  "Steps job_last ! 1 = step_back_and_away \<and> length (Steps job_last) = 2 \<and>
   (case evaluate_step demo_host (stepIndex (Steps job_last)) step_back_and_away
           (''done'' @ [CHR 0x0A]) 0 False
           ((entry_state demo_host [job_last, job_b] [job_last, job_b] 0)\<lparr>si := 1\<rparr>) of
      Return rc \<Rightarrow> None
    | Next st' \<Rightarrow> Some (execJobs st')) =
     Some [job_last, job_b,
           \<lparr>job_Name = ''l-resume-1700000000000000000'',
            Steps = [command_step ''s1'' ''echo start'', step_back_and_away]\<rparr>]"
  by code_simp

text \<open>
  Claim C4 says that the job made of the steps left over at a \<^verbatim>\<open>goto_job\<close> is a
  one-shot job, whose steps run exactly once, after the target job. In the pipeline
  \<open>[job_b, job_a]\<close>, with the variable \<^verbatim>\<open>n\<close> empty at the start, step \<^verbatim>\<open>s1\<close> of job
  \<^verbatim>\<open>a\<close> jumps back to job \<^verbatim>\<open>b\<close> on its first two passes, each time with step
  \<^verbatim>\<open>s2\<close> (\<^verbatim>\<open>echo tail\<close>) left over. The resume job of the first jump runs after the
  second run of \<^verbatim>\<open>b\<close>, and stays in the working list; the second jump puts its resume
  job between \<^verbatim>\<open>b\<close> and the first one. After the third run of \<^verbatim>\<open>b\<close> both resume
  jobs run, the first for the second time: \<^verbatim>\<open>echo tail\<close> runs twice in a row before
  job \<^verbatim>\<open>a\<close> is entered again. No step takes a job out of the working list
  (\<open>run_step_keeps_jobs\<close>), and the loops write the list nowhere else.
\<close>

theorem resume_job_runs_again:
  "run_pipeline 12 demo_host [] [] [job_b, job_a] [(''n'', [])] =
     Exit 0 [''echo x'', ''echo n=x'', ''echo xx'', ''echo tail'', ''echo n=xx'',
             ''echo xxx'', ''echo tail'', ''echo tail'', ''echo n=xxx'', ''echo tail'']"
  by code_simp

text \<open>
  Claim C5 says that a \<^verbatim>\<open>goto_job\<close> whose target is declared and not in the working
  list puts the declared job into the working list immediately after the current job.
  Job \<^verbatim>\<open>first\<close> is at position 0 of the working list \<^verbatim>\<open>first\<close>, \<^verbatim>\<open>second\<close>,
  \<^verbatim>\<open>third\<close>, and both legacy conditions of its only step match: go to \<^verbatim>\<open>third\<close>, go
  to \<^verbatim>\<open>extra\<close>. The first decision leaves the job cursor one before \<^verbatim>\<open>third\<close>. The
  loop over the conditions has no \<^verbatim>\<open>break\<close>, and the lookup of the second decision
  inserts \<^verbatim>\<open>extra\<close> behind the cursor: at position 2, behind job \<^verbatim>\<open>second\<close>, and not
  at position 1, behind the current job. The run goes on with \<^verbatim>\<open>extra\<close> and
  \<^verbatim>\<open>third\<close>.
\<close>

theorem goto_job_inserted_behind_next_job:
  "(case evaluate_step demo_host (stepIndex (Steps job_first)) step_two_jumps
           (''go'' @ [CHR 0x0A]) 0 False
           (entry_state demo_host [job_first, job_second, job_third]
              [job_first, job_second, job_third, job_extra] 0) of
      Return rc \<Rightarrow> None
    | Next st' \<Rightarrow> Some (execJobs st', ji st')) =
     Some ([job_first, job_second, job_extra, job_third], 1) \<and>
   run_pipeline 5 demo_host [] [''first'', ''second'', ''third'']
     [job_first, job_second, job_third, job_extra] [] =
     Exit 0 [''echo go'', ''echo extra'', ''echo third'']"
  by code_simp

end
